theory Spec2Isabelle
  imports Main "HOL-Library.FSet" "HOL-Library.Sublist"
begin

section \<open>The message catalogue of \<^verbatim>\<open>inputremapper/gui/message_broker.py\<close>\<close>

text \<open>
  \<^verbatim>\<open>class MessageType(Enum)\<close>: the closed set of message kinds, one constructor per member,
  in the order of the source.
\<close>

datatype MessageType =
    reset_gui | terminate | init
  | uinputs | groups | group | preset | mapping
  | selected_event
  | combination_recorded | recording_started | recording_finished
  | combination_update | status_msg | injector_state
  | gui_focus_request | user_confirm_request
  | do_stack_switch
  | test1 | test2

text \<open>
  The type aliases of the source. \<^verbatim>\<open>Capabilities = Dict[int, List]\<close> is a dictionary from
  event types to lists of event codes; a dictionary is kept as an association list in
  insertion order, which is the order Python renders it in. \<^verbatim>\<open>DeviceType\<close> and
  \<^verbatim>\<open>EventCombination\<close> are imported by the source from other modules; only their values
  being comparable matters here, so they stand as a string and as a list of
  (type, code, value) triples. A callable stored in a message (\<^verbatim>\<open>respond\<close>) is compared by
  identity in Python and stands as a number naming the callable.
\<close>

type_synonym Name = string
type_synonym Key = string
type_synonym Capabilities = "(int \<times> int list) list"
type_synonym DeviceType = string
type_synonym DeviceTypes = "DeviceType list"
type_synonym EventCombination = "(int \<times> int \<times> int) list"
type_synonym callable_id = nat

text \<open>
  The message classes of the source: the nine frozen dataclasses, with their fields in
  declaration order, and the plain class \<^verbatim>\<open>Signal\<close>.
\<close>

datatype message =
    UInputsData "(Name \<times> Capabilities) list"
  | GroupsData "(Key \<times> DeviceTypes) list"
  | GroupData string "string list"
  | PresetData "Name option" "(Name \<times> EventCombination) list option" bool
  | StatusData int "string option" "string option"
  | CombinationRecorded EventCombination
  | CombinationUpdate EventCombination EventCombination
  | UserConfirmRequest string callable_id
  | DoStackSwitch int
  | Signal MessageType

text \<open>
  The attribute \<^verbatim>\<open>message_type\<close>: a class attribute of each dataclass, the instance
  attribute set by \<^verbatim>\<open>Signal.__init__\<close>.
\<close>

fun message_type :: "message \<Rightarrow> MessageType" where
  "message_type (UInputsData _) = uinputs"
| "message_type (GroupsData _) = groups"
| "message_type (GroupData _ _) = group"
| "message_type (PresetData _ _ _) = preset"
| "message_type (StatusData _ _ _) = status_msg"
| "message_type (CombinationRecorded _) = combination_recorded"
| "message_type (CombinationUpdate _ _) = combination_update"
| "message_type (UserConfirmRequest _ _) = user_confirm_request"
| "message_type (DoStackSwitch _) = do_stack_switch"
| "message_type (Signal k) = k"

section \<open>The broker\<close>

text \<open>
  A listener is a Python callable, compared by identity: it stands as a number. What a
  listener does when it is called is a sequence of calls on the broker, which ends early
  when the listener raises. \<^verbatim>\<open>ASend\<close> carries, besides the message, the call site that
  \<^verbatim>\<open>get_caller\<close> would read from the stack.
\<close>

type_synonym listener = nat
type_synonym exn = string
type_synonym origin = "string \<times> int"
type_synonym entry = "message \<times> string \<times> int"

datatype action =
    ASend message origin
  | ASignal MessageType
  | ASubscribe MessageType listener
  | AUnsubscribe listener
  | ARaise exn

text \<open>
  The observable history of a broker: \<^verbatim>\<open>Enqueue\<close> when \<^verbatim>\<open>send\<close> appends an entry,
  \<^verbatim>\<open>Dispatch\<close> for the debug line \<^verbatim>\<open>_send\<close> logs when it starts on an entry, \<^verbatim>\<open>Invoke\<close>
  when a listener is called with a message.
\<close>

datatype event =
    Enqueue entry
  | Dispatch entry
  | Invoke listener message

text \<open>
  The three attributes of \<^verbatim>\<open>MessageBroker.__init__\<close>, and the history. \<^verbatim>\<open>_listeners\<close> is a
  \<^verbatim>\<open>defaultdict(set)\<close>: a dictionary in which reading a missing key stores the empty set
  under it.
\<close>

record broker =
  listeners :: "MessageType \<rightharpoonup> listener fset"
  messages :: "entry list"
  sending :: bool
  trace :: "event list"

definition MessageBroker_init :: broker where
  "MessageBroker_init = \<lparr>listeners = Map.empty, messages = [], sending = False, trace = []\<rparr>"

text \<open>
  The outcome of a call: it returns, or an exception leaves it, or the model has run out
  of fuel (the call has not returned yet). Each carries the broker as the call left it.
\<close>

datatype outcome =
    Return broker
  | Raise exn broker
  | OutOfFuel broker

fun state_of :: "outcome \<Rightarrow> broker" where
  "state_of (Return b) = b"
| "state_of (Raise _ b) = b"
| "state_of (OutOfFuel b) = b"

text \<open>
  The behaviour of the listeners: what listener \<open>l\<close> does when called with a message,
  given the history so far. The order in which Python iterates over a set is not
  specified: it is a parameter \<open>iter\<close>, of which \<open>valid_order\<close> says that it lists the
  elements of the set, each once.
\<close>

type_synonym behaviour = "listener \<Rightarrow> event list \<Rightarrow> message \<Rightarrow> action list"
type_synonym set_order = "listener fset \<Rightarrow> listener list"
type_synonym send_fun = "broker \<Rightarrow> message \<Rightarrow> origin \<Rightarrow> outcome"

definition valid_order :: "set_order \<Rightarrow> bool" where
  "valid_order iter = (\<forall>S. fset_of_list (iter S) = S \<and> distinct (iter S))"

text \<open>\<^verbatim>\<open>self._listeners[k]\<close> on the defaultdict: the set, and the dictionary after the read.\<close>

definition getitem :: "(MessageType \<rightharpoonup> listener fset) \<Rightarrow> MessageType
    \<Rightarrow> listener fset \<times> (MessageType \<rightharpoonup> listener fset)" where
  "getitem d k = (case d k of None \<Rightarrow> ({||}, d(k \<mapsto> {||})) | Some s \<Rightarrow> (s, d))"

text \<open>The listeners registered for a kind (a missing key has none).\<close>

definition registered :: "broker \<Rightarrow> MessageType \<Rightarrow> listener fset" where
  "registered b k = fst (getitem (listeners b) k)"

text \<open>
  \<^verbatim>\<open>subscribe\<close>: \<^verbatim>\<open>self._listeners[massage_type].add(listener)\<close>; it returns the broker.
\<close>

definition subscribe :: "broker \<Rightarrow> MessageType \<Rightarrow> listener \<Rightarrow> broker" where
  "subscribe b massage_type l =
     (case getitem (listeners b) massage_type of
        (s, d) \<Rightarrow> b\<lparr>listeners := d(massage_type \<mapsto> finsert l s)\<rparr>)"

text \<open>
  \<^verbatim>\<open>unsubscribe\<close>: for every set stored in the dictionary, \<^verbatim>\<open>listeners.remove(listener)\<close>,
  whose \<^verbatim>\<open>KeyError\<close> for an absent element is caught and passed over.
\<close>

datatype py_error = KeyError

definition set_remove :: "listener fset \<Rightarrow> listener \<Rightarrow> py_error + listener fset" where
  "set_remove s l = (if l |\<in>| s then Inr (s |-| {|l|}) else Inl KeyError)"

definition unsubscribe :: "broker \<Rightarrow> listener \<Rightarrow> broker" where
  "unsubscribe b l =
     b\<lparr>listeners := (\<lambda>k. case listeners b k of
          None \<Rightarrow> None
        | Some s \<Rightarrow> (case set_remove s l of Inl KeyError \<Rightarrow> Some s | Inr s' \<Rightarrow> Some s'))\<rparr>"

text \<open>
  The first line of \<^verbatim>\<open>send\<close>: \<^verbatim>\<open>self._messages.append((data, *self.get_caller()))\<close>, where
  \<open>caller\<close> is what \<^verbatim>\<open>get_caller\<close> returns.
\<close>

definition append_message :: "broker \<Rightarrow> message \<Rightarrow> origin \<Rightarrow> broker" where
  "append_message b data caller =
     b\<lparr>messages := messages b @ [(data, fst caller, snd caller)],
       trace := trace b @ [Enqueue (data, fst caller, snd caller)]\<rparr>"

text \<open>
  \<^verbatim>\<open>signal\<close> calls \<^verbatim>\<open>self.send(Signal(signal))\<close> from line 109 of the module, which is the
  call site \<^verbatim>\<open>get_caller\<close> then finds. The functions below that call back into \<^verbatim>\<open>send\<close>
  take it as the argument \<open>sendf\<close>; \<open>send\<close> itself closes the recursion.
\<close>

definition signal_origin :: origin where
  "signal_origin = (''message_broker.py'', 109)"

definition signal_via :: "send_fun \<Rightarrow> broker \<Rightarrow> MessageType \<Rightarrow> outcome" where
  "signal_via sendf b k = sendf b (Signal k) signal_origin"

text \<open>The body of a listener: its calls on the broker, in order, up to the first raise.\<close>

fun run_listener :: "send_fun \<Rightarrow> broker \<Rightarrow> action list \<Rightarrow> outcome" where
  "run_listener sendf b [] = Return b"
| "run_listener sendf b (ASend data caller # acts) =
     (case sendf b data caller of Return b' \<Rightarrow> run_listener sendf b' acts | r \<Rightarrow> r)"
| "run_listener sendf b (ASignal k # acts) =
     (case signal_via sendf b k of Return b' \<Rightarrow> run_listener sendf b' acts | r \<Rightarrow> r)"
| "run_listener sendf b (ASubscribe k l # acts) = run_listener sendf (subscribe b k l) acts"
| "run_listener sendf b (AUnsubscribe l # acts) = run_listener sendf (unsubscribe b l) acts"
| "run_listener sendf b (ARaise e # acts) = Raise e b"

text \<open>\<^verbatim>\<open>listener(data)\<close>.\<close>

definition call_listener :: "behaviour \<Rightarrow> send_fun \<Rightarrow> broker \<Rightarrow> listener \<Rightarrow> message \<Rightarrow> outcome" where
  "call_listener B sendf b l data =
     run_listener sendf (b\<lparr>trace := trace b @ [Invoke l data]\<rparr>) (B l (trace b) data)"

text \<open>The \<^verbatim>\<open>for\<close> loop of \<^verbatim>\<open>_send\<close> over the copied set.\<close>

fun invoke_all :: "behaviour \<Rightarrow> send_fun \<Rightarrow> broker \<Rightarrow> listener list \<Rightarrow> message \<Rightarrow> outcome" where
  "invoke_all B sendf b [] data = Return b"
| "invoke_all B sendf b (l # ls) data =
     (case call_listener B sendf b l data of
        Return b' \<Rightarrow> invoke_all B sendf b' ls data
      | r \<Rightarrow> r)"

text \<open>
  \<^verbatim>\<open>_send\<close>: the debug line, then the loop over \<^verbatim>\<open>self._listeners[data.message_type].copy()\<close>.
  The copy is the list \<open>iter s\<close>, taken before the first listener runs.
\<close>

fun priv_send :: "set_order \<Rightarrow> behaviour \<Rightarrow> send_fun \<Rightarrow> broker \<Rightarrow> entry \<Rightarrow> outcome" where
  "priv_send iter B sendf b (data, file, line) =
     (case getitem (listeners b) (message_type data) of
        (s, d) \<Rightarrow>
          invoke_all B sendf
            (b\<lparr>listeners := d, trace := trace b @ [Dispatch (data, file, line)]\<rparr>)
            (iter s) data)"

text \<open>
  The \<^verbatim>\<open>while self._messages\<close> loop of \<^verbatim>\<open>_send_all\<close>. It may run forever (a listener may
  send on every call), so it takes fuel: one unit for each test of the queue.
\<close>

fun drain :: "nat \<Rightarrow> set_order \<Rightarrow> behaviour \<Rightarrow> send_fun \<Rightarrow> broker \<Rightarrow> outcome" where
  "drain 0 iter B sendf b = OutOfFuel b"
| "drain (Suc n) iter B sendf b =
     (case messages b of
        [] \<Rightarrow> Return b
      | e # q \<Rightarrow>
          (case priv_send iter B sendf (b\<lparr>messages := q\<rparr>) e of
             Return b' \<Rightarrow> drain n iter B sendf b'
           | r \<Rightarrow> r))"

text \<open>
  \<^verbatim>\<open>_send_all\<close>: nothing when the flag is set; otherwise the loop between setting the flag
  and the \<^verbatim>\<open>finally\<close> clause that clears it, on return and on an exception alike.
\<close>

definition priv_send_all :: "nat \<Rightarrow> set_order \<Rightarrow> behaviour \<Rightarrow> send_fun \<Rightarrow> broker \<Rightarrow> outcome" where
  "priv_send_all n iter B sendf b =
     (if sending b then Return b
      else (case drain n iter B sendf (b\<lparr>sending := True\<rparr>) of
              Return b' \<Rightarrow> Return (b'\<lparr>sending := False\<rparr>)
            | Raise e b' \<Rightarrow> Raise e (b'\<lparr>sending := False\<rparr>)
            | OutOfFuel b' \<Rightarrow> OutOfFuel b'))"

text \<open>
  \<^verbatim>\<open>send\<close>: append, then \<^verbatim>\<open>_send_all\<close>. The listeners called from the loop call this same
  function, with one unit of fuel less.
\<close>

primrec send :: "nat \<Rightarrow> set_order \<Rightarrow> behaviour \<Rightarrow> broker \<Rightarrow> message \<Rightarrow> origin \<Rightarrow> outcome" where
  "send 0 iter B = (\<lambda>b data caller. OutOfFuel b)"
| "send (Suc n) iter B =
     (\<lambda>b data caller. priv_send_all n iter B (send n iter B) (append_message b data caller))"

definition signal :: "nat \<Rightarrow> set_order \<Rightarrow> behaviour \<Rightarrow> broker \<Rightarrow> MessageType \<Rightarrow> outcome" where
  "signal n iter B b k = signal_via (send n iter B) b k"

section \<open>Reading a history\<close>

text \<open>The entries enqueued, the entries dispatched and the listener calls of a history, in order.\<close>

fun enqueued :: "event list \<Rightarrow> entry list" where
  "enqueued [] = []"
| "enqueued (Enqueue e # t) = e # enqueued t"
| "enqueued (Dispatch e # t) = enqueued t"
| "enqueued (Invoke l m # t) = enqueued t"

fun dispatched :: "event list \<Rightarrow> entry list" where
  "dispatched [] = []"
| "dispatched (Enqueue e # t) = dispatched t"
| "dispatched (Dispatch e # t) = e # dispatched t"
| "dispatched (Invoke l m # t) = dispatched t"

fun invoked :: "event list \<Rightarrow> (listener \<times> message) list" where
  "invoked [] = []"
| "invoked (Enqueue e # t) = invoked t"
| "invoked (Dispatch e # t) = invoked t"
| "invoked (Invoke l m # t) = (l, m) # invoked t"

text \<open>
  \<open>attributed cur t\<close>: every listener call in \<open>t\<close> is made with the message of the entry
  dispatched last before it (\<open>cur\<close> is the entry dispatched last before \<open>t\<close> starts).
\<close>

fun attributed :: "entry option \<Rightarrow> event list \<Rightarrow> bool" where
  "attributed cur [] = True"
| "attributed cur (Enqueue e # t) = attributed cur t"
| "attributed cur (Dispatch e # t) = attributed (Some e) t"
| "attributed cur (Invoke l m # t) =
     (case cur of None \<Rightarrow> False | Some e \<Rightarrow> fst e = m \<and> attributed cur t)"

fun last_dispatched :: "entry option \<Rightarrow> event list \<Rightarrow> entry option" where
  "last_dispatched cur [] = cur"
| "last_dispatched cur (Enqueue e # t) = last_dispatched cur t"
| "last_dispatched cur (Dispatch e # t) = last_dispatched (Some e) t"
| "last_dispatched cur (Invoke l m # t) = last_dispatched cur t"

text \<open>
  The first-in-first-out law as a property of a broker and its history: the entries
  dispatched so far, followed by the entries still in the queue, are the entries enqueued
  so far, in the order in which they were enqueued; and every listener call was made with
  the message of the entry dispatched last before it. So the \<open>k\<close>-th entry dispatched is
  the \<open>k\<close>-th entry enqueued, and the listener calls for it all lie between its dispatch
  and the next one.
\<close>

definition fifo :: "broker \<Rightarrow> bool" where
  "fifo b = (dispatched (trace b) @ messages b = enqueued (trace b)
             \<and> attributed None (trace b))"

text \<open>
  The same law read off the history alone. \<open>tagged 0 t\<close> lists the listener calls of \<open>t\<close>,
  each with the number \<open>k\<close> of entries dispatched before it. \<open>delivered_in_order t\<close>: a call
  numbered \<open>k\<close> was made with the message of the \<open>k\<close>-th entry enqueued, and the numbers
  never decrease along the history; so the calls for an entry enqueued earlier all come
  before the calls for an entry enqueued later.
\<close>

fun tagged :: "nat \<Rightarrow> event list \<Rightarrow> (nat \<times> listener \<times> message) list" where
  "tagged k [] = []"
| "tagged k (Enqueue e # t) = tagged k t"
| "tagged k (Dispatch e # t) = tagged (Suc k) t"
| "tagged k (Invoke l m # t) = (k, l, m) # tagged k t"

definition delivered_in_order :: "event list \<Rightarrow> bool" where
  "delivered_in_order t =
     (list_all (\<lambda>(k, l, m). 0 < k \<and> k \<le> length (enqueued t) \<and> fst (enqueued t ! (k - 1)) = m)
        (tagged 0 t)
      \<and> sorted (map fst (tagged 0 t)))"

section \<open>Rendering, equality and assignment of messages\<close>

text \<open>
  The members of \<^verbatim>\<open>MessageType\<close> by name, and \<^verbatim>\<open>str\<close> of a member, which Python's \<^verbatim>\<open>Enum\<close>
  renders as the class name, a dot and the member name.
\<close>

fun MessageType_name :: "MessageType \<Rightarrow> string" where
  "MessageType_name reset_gui = ''reset_gui''"
| "MessageType_name terminate = ''terminate''"
| "MessageType_name init = ''init''"
| "MessageType_name uinputs = ''uinputs''"
| "MessageType_name groups = ''groups''"
| "MessageType_name group = ''group''"
| "MessageType_name preset = ''preset''"
| "MessageType_name mapping = ''mapping''"
| "MessageType_name selected_event = ''selected_event''"
| "MessageType_name combination_recorded = ''combination_recorded''"
| "MessageType_name recording_started = ''recording_started''"
| "MessageType_name recording_finished = ''recording_finished''"
| "MessageType_name combination_update = ''combination_update''"
| "MessageType_name status_msg = ''status_msg''"
| "MessageType_name injector_state = ''injector_state''"
| "MessageType_name gui_focus_request = ''gui_focus_request''"
| "MessageType_name user_confirm_request = ''user_confirm_request''"
| "MessageType_name do_stack_switch = ''do_stack_switch''"
| "MessageType_name test1 = ''test1''"
| "MessageType_name test2 = ''test2''"

definition MessageType_str :: "MessageType \<Rightarrow> string" where
  "MessageType_str k = ''MessageType.'' @ MessageType_name k"

text \<open>
  \<^verbatim>\<open>Signal.__str__\<close>: \<^verbatim>\<open>f"Signal: {self.message_type}"\<close>. \<^verbatim>\<open>Signal.__eq__\<close>:
  \<^verbatim>\<open>str(self) == str(other)\<close>, where \<open>other_str\<close> is \<^verbatim>\<open>str(other)\<close>.
\<close>

definition Signal_str :: "MessageType \<Rightarrow> string" where
  "Signal_str message_type' = ''Signal: '' @ MessageType_str message_type'"

definition Signal_eq :: "MessageType \<Rightarrow> string \<Rightarrow> bool" where
  "Signal_eq message_type' other_str = (Signal_str message_type' = other_str)"

text \<open>
  Equality of two Python dictionaries: the same keys, and equal values under each key
  (\<open>veq\<close> compares the values).
\<close>

definition dict_eq :: "('v \<Rightarrow> 'v \<Rightarrow> bool) \<Rightarrow> ('k \<times> 'v) list \<Rightarrow> ('k \<times> 'v) list \<Rightarrow> bool" where
  "dict_eq veq d1 d2 =
     (set (map fst d1) = set (map fst d2)
      \<and> list_all (\<lambda>k. case (map_of d1 k, map_of d2 k) of
                         (Some v1, Some v2) \<Rightarrow> veq v1 v2
                       | _ \<Rightarrow> False) (map fst d1))"

text \<open>
  The \<^verbatim>\<open>__eq__\<close> that \<^verbatim>\<open>@dataclass\<close> generates: when both objects are of the same class, the
  tuples of their fields are compared; otherwise the result is \<^verbatim>\<open>NotImplemented\<close> (here
  \<open>None\<close>). \<^verbatim>\<open>message_type\<close> is a class attribute without annotation, hence not a field.
  \<^verbatim>\<open>Signal\<close> is not a dataclass.
\<close>

definition dataclass_eq :: "message \<Rightarrow> message \<Rightarrow> bool option" where
  "dataclass_eq self other =
     (case self of
        UInputsData u \<Rightarrow>
          (case other of UInputsData u' \<Rightarrow> Some (dict_eq (dict_eq (=)) u u') | _ \<Rightarrow> None)
      | GroupsData g \<Rightarrow>
          (case other of GroupsData g' \<Rightarrow> Some (dict_eq (=) g g') | _ \<Rightarrow> None)
      | GroupData k p \<Rightarrow>
          (case other of GroupData k' p' \<Rightarrow> Some (k = k' \<and> p = p') | _ \<Rightarrow> None)
      | PresetData n m a \<Rightarrow>
          (case other of PresetData n' m' a' \<Rightarrow> Some (n = n' \<and> m = m' \<and> a = a') | _ \<Rightarrow> None)
      | StatusData c m t \<Rightarrow>
          (case other of StatusData c' m' t' \<Rightarrow> Some (c = c' \<and> m = m' \<and> t = t') | _ \<Rightarrow> None)
      | CombinationRecorded c \<Rightarrow>
          (case other of CombinationRecorded c' \<Rightarrow> Some (c = c') | _ \<Rightarrow> None)
      | CombinationUpdate x y \<Rightarrow>
          (case other of CombinationUpdate x' y' \<Rightarrow> Some (x = x' \<and> y = y') | _ \<Rightarrow> None)
      | UserConfirmRequest m r \<Rightarrow>
          (case other of UserConfirmRequest m' r' \<Rightarrow> Some (m = m' \<and> r = r') | _ \<Rightarrow> None)
      | DoStackSwitch p \<Rightarrow>
          (case other of DoStackSwitch p' \<Rightarrow> Some (p = p') | _ \<Rightarrow> None)
      | Signal k \<Rightarrow> None)"

text \<open>
  The assignment \<^verbatim>\<open>obj.name = v\<close> on a message. \<^verbatim>\<open>@dataclass(frozen=True)\<close> gives each of the
  nine dataclasses a \<^verbatim>\<open>__setattr__\<close> that raises \<^verbatim>\<open>FrozenInstanceError\<close> for every name.
  \<^verbatim>\<open>Signal\<close> is a plain class whose \<^verbatim>\<open>__init__\<close> sets the instance attribute
  \<^verbatim>\<open>message_type\<close>: an assignment to it replaces the kind (an assignment to another name
  adds an attribute, which the model does not keep).
\<close>

datatype attr_error = FrozenInstanceError

fun is_dataclass :: "message \<Rightarrow> bool" where
  "is_dataclass (Signal k) = False"
| "is_dataclass _ = True"

fun setattr :: "message \<Rightarrow> string \<Rightarrow> MessageType \<Rightarrow> attr_error + message" where
  "setattr (Signal k) name v = Inr (if name = ''message_type'' then Signal v else Signal k)"
| "setattr obj name v = Inl FrozenInstanceError"

section \<open>The rendering of \<^verbatim>\<open>UInputsData\<close>\<close>












text \<open>
  The regular expression \<^verbatim>\<open>(\d+, )+\<close>. \<open>match_unit s\<close> is the length of a match of
  \<^verbatim>\<open>\d+, \<close> at the start of \<open>s\<close>: all the digits there (taking fewer would leave a digit
  where the comma must be), then a comma and a space. \<open>match_group s\<close> is the length of the
  match of the whole expression at the start of \<open>s\<close>, which is greedy: as many units as
  there are; 0 when there is none. \<open>finditer_from i s\<close> lists the spans that \<^verbatim>\<open>re.finditer\<close>
  finds from left to right, each search starting where the last match ended; \<open>i\<close> is the
  position of \<open>s\<close> in the whole string.
\<close>

definition is_digit :: "char \<Rightarrow> bool" where
  "is_digit c = (c \<in> set ''0123456789'')"

definition match_unit :: "string \<Rightarrow> nat option" where
  "match_unit s =
     (let ds = takeWhile is_digit s in
      if ds \<noteq> [] \<and> take 2 (dropWhile is_digit s) = '', '' then Some (length ds + 2) else None)"

function match_group :: "string \<Rightarrow> nat" where
  "match_group s = (case match_unit s of None \<Rightarrow> 0 | Some n \<Rightarrow> n + match_group (drop n s))"
  by pat_completeness auto
termination
proof (relation "measure length")
  show "wf (measure length)" by simp
next
  fix s :: string and n
  assume "match_unit s = Some n"
  then have "0 < n" and "s \<noteq> []"
    by (auto simp: match_unit_def Let_def split: if_splits)
  then show "(drop n s, s) \<in> measure length" by simp
qed







text \<open>
  What the rendering is meant to do, in one pass from left to right: where the expression
  matches, the match is replaced by its first unit followed by \<^verbatim>\<open>... \<close> (a match of one
  unit is kept as it is); every other character is copied. \<open>compress_run\<close>: a run of three
  numbers or more as its first number, a comma, the ellipsis and its last number.
\<close>

function squeeze :: "string \<Rightarrow> string" where
  "squeeze [] = []"
| "squeeze (c # cs) =
     (let n = match_group (c # cs) in
      if n = 0 then c # squeeze cs
      else (case match_unit (c # cs) of
              None \<Rightarrow> c # squeeze cs
            | Some u \<Rightarrow> (if u = n then take n (c # cs) else take u (c # cs) @ ''... '')
                          @ squeeze (drop n (c # cs))))"
  by pat_completeness auto
termination
  by (relation "measure length") auto






section \<open>Notions used in the statements\<close>

text \<open>The events recorded between the broker \<open>b\<close> and a later broker \<open>b'\<close>.\<close>

definition since :: "broker \<Rightarrow> broker \<Rightarrow> event list" where
  "since b b' = drop (length (trace b)) (trace b')"

text \<open>The exception that left a call, if one did; whether the call has ended.\<close>

fun exception_of :: "outcome \<Rightarrow> exn option" where
  "exception_of (Return b) = None"
| "exception_of (Raise x b) = Some x"
| "exception_of (OutOfFuel b) = None"

fun completed :: "outcome \<Rightarrow> bool" where
  "completed (Return b) = True"
| "completed (Raise x b) = True"
| "completed (OutOfFuel b) = False"

text \<open>
  The exception a listener body raises, if it raises, and the calls it makes before:
  everything up to its first \<^verbatim>\<open>ARaise\<close>.
\<close>

fun first_raise :: "action list \<Rightarrow> exn option" where
  "first_raise [] = None"
| "first_raise (ARaise x # acts) = Some x"
| "first_raise (a # acts) = first_raise acts"

fun until_raise :: "action list \<Rightarrow> action list" where
  "until_raise [] = []"
| "until_raise (ARaise x # acts) = []"
| "until_raise (a # acts) = a # until_raise acts"

text \<open>
  The broker after the calls of a listener body, when each \<^verbatim>\<open>send\<close> in it does no more
  than append its entry: the calls are made in order, up to the first raise.
\<close>

fun effect :: "broker \<Rightarrow> action list \<Rightarrow> broker" where
  "effect b [] = b"
| "effect b (ASend d c # acts) = effect (append_message b d c) acts"
| "effect b (ASignal k # acts) = effect (append_message b (Signal k) signal_origin) acts"
| "effect b (ASubscribe k l # acts) = effect (subscribe b k l) acts"
| "effect b (AUnsubscribe l # acts) = effect (unsubscribe b l) acts"
| "effect b (ARaise x # acts) = b"

text \<open>
  \<open>raised_in B h t\<close>: the exception of the first listener call recorded in the events \<open>t\<close>
  whose body raises, if there is one; \<open>h\<close> is the history before \<open>t\<close>, which the
  behaviour of a listener may depend on. \<open>performed B h t\<close>: the calls on the broker made by
  the listener calls recorded in \<open>t\<close>, in order.
\<close>

fun raised_in :: "behaviour \<Rightarrow> event list \<Rightarrow> event list \<Rightarrow> exn option" where
  "raised_in B h [] = None"
| "raised_in B h (Invoke l m # t) =
     (case first_raise (B l h m) of
        Some x \<Rightarrow> Some x
      | None \<Rightarrow> raised_in B (h @ [Invoke l m]) t)"
| "raised_in B h (Enqueue e # t) = raised_in B (h @ [Enqueue e]) t"
| "raised_in B h (Dispatch e # t) = raised_in B (h @ [Dispatch e]) t"

fun performed :: "behaviour \<Rightarrow> event list \<Rightarrow> event list \<Rightarrow> action list" where
  "performed B h [] = []"
| "performed B h (Invoke l m # t) = until_raise (B l h m) @ performed B (h @ [Invoke l m]) t"
| "performed B h (Enqueue e # t) = performed B (h @ [Enqueue e]) t"
| "performed B h (Dispatch e # t) = performed B (h @ [Dispatch e]) t"

text \<open>
  \<open>stops_at_raise B h t\<close>: after the first listener call recorded in \<open>t\<close> whose body raises,
  \<open>t\<close> records no dispatch and no listener call (what is left are the entries that
  listener appended before it raised).
\<close>

fun stops_at_raise :: "behaviour \<Rightarrow> event list \<Rightarrow> event list \<Rightarrow> bool" where
  "stops_at_raise B h [] = True"
| "stops_at_raise B h (Invoke l m # t) =
     (case first_raise (B l h m) of
        Some x \<Rightarrow> dispatched t = [] \<and> invoked t = []
      | None \<Rightarrow> stops_at_raise B (h @ [Invoke l m]) t)"
| "stops_at_raise B h (Enqueue e # t) = stops_at_raise B (h @ [Enqueue e]) t"
| "stops_at_raise B h (Dispatch e # t) = stops_at_raise B (h @ [Dispatch e]) t"

text \<open>A \<^verbatim>\<open>send\<close> that does nothing but append its entry and return.\<close>

definition enqueue_only :: send_fun where
  "enqueue_only b data caller = Return (append_message b data caller)"

section \<open>Auxiliary notions for the proofs\<close>

text \<open>
  \<open>nested_ok sendf\<close>: on a broker whose flag is set, \<open>sendf\<close> appends the entry and returns
  (or has no fuel left); \<open>nested_strong\<close>: it always returns. \<open>ext b b' t\<close>: \<open>b'\<close> is \<open>b\<close>
  after the events \<open>t\<close>, with the entries enqueued in \<open>t\<close> added to the queue and the flag
  unchanged. \<open>fanout data t\<close>: the events of \<open>t\<close> are listener calls with the message
  \<open>data\<close>, and enqueues. \<open>sent\<close>: the entries a listener body appends. \<open>fan_res\<close> and
  \<open>run_res\<close> collect what the proofs carry through the loop over the listeners and
  through the loop over the queue.
\<close>

definition nested_ok :: "send_fun \<Rightarrow> bool" where
  "nested_ok sendf = (\<forall>b data caller. sending b \<longrightarrow>
      sendf b data caller = Return (append_message b data caller) \<or> sendf b data caller = OutOfFuel b)"

definition ext :: "broker \<Rightarrow> broker \<Rightarrow> event list \<Rightarrow> bool" where
  "ext b b' t = (trace b' = trace b @ t \<and> messages b' = messages b @ enqueued t
                 \<and> sending b' = sending b)"

definition fanout :: "message \<Rightarrow> event list \<Rightarrow> bool" where
  "fanout data t = list_all (\<lambda>ev. case ev of Enqueue _ \<Rightarrow> True | Dispatch _ \<Rightarrow> False
                                        | Invoke _ m \<Rightarrow> m = data) t"

definition nested_strong :: "send_fun \<Rightarrow> bool" where
  "nested_strong sendf = (\<forall>b data caller. sending b \<longrightarrow>
      sendf b data caller = Return (append_message b data caller))"

fun sent :: "action list \<Rightarrow> entry list" where
  "sent [] = []"
| "sent (ASend d c # acts) = (d, fst c, snd c) # sent acts"
| "sent (ASignal k # acts) = (Signal k, fst signal_origin, snd signal_origin) # sent acts"
| "sent (ARaise x # acts) = []"
| "sent (a # acts) = sent acts"

definition fan_res ::
  "behaviour \<Rightarrow> broker \<Rightarrow> message \<Rightarrow> listener list \<Rightarrow> outcome \<Rightarrow> event list \<Rightarrow> bool" where
  "fan_res B b data ls r t =
     (ext b (state_of r) t \<and> fanout data t \<and> completed r
      \<and> exception_of r = raised_in B (trace b) t
      \<and> listeners (state_of r) = listeners (effect b (performed B (trace b) t))
      \<and> prefix (invoked t) (map (\<lambda>l. (l, data)) ls)
      \<and> (exception_of r = None \<longrightarrow> invoked t = map (\<lambda>l. (l, data)) ls)
      \<and> stops_at_raise B (trace b) t)"

definition run_res :: "behaviour \<Rightarrow> broker \<Rightarrow> outcome \<Rightarrow> event list \<Rightarrow> bool" where
  "run_res B b r t =
     (trace (state_of r) = trace b @ t
      \<and> exception_of r = raised_in B (trace b) t
      \<and> (\<forall>b'. r = Return b' \<longrightarrow> messages b' = [])
      \<and> stops_at_raise B (trace b) t)"


section \<open>Examples\<close>

text \<open>
  \<open>relay\<close>: listener 1, called with the signal \<open>test1\<close>, signals \<open>test2\<close>; every other call
  does nothing. \<open>relay_broker\<close>: a new broker on which listeners 1 and 3 are subscribed to
  \<open>test1\<close> and listener 2 to \<open>test2\<close>.
\<close>

definition relay :: behaviour where
  "relay l h m = (if l = 1 \<and> m = Signal test1 then [ASignal test2] else [])"

definition relay_broker :: broker where
  "relay_broker =
     subscribe (subscribe (subscribe MessageBroker_init test1 1) test1 3) test2 2"

text \<open>
  \<open>faulty\<close>: listener 1, called with the signal \<open>test1\<close>, signals \<open>test2\<close> and then raises;
  every other call does nothing. \<open>faulty_broker\<close>: a new broker with listener 1 subscribed
  to \<open>test1\<close> and listener 2 to \<open>test2\<close>.
\<close>

definition faulty :: behaviour where
  "faulty l h m = (if l = 1 \<and> m = Signal test1 then [ASignal test2, ARaise ''boom''] else [])"

definition faulty_broker :: broker where
  "faulty_broker = subscribe (subscribe MessageBroker_init test1 1) test2 2"

definition faulty_result :: outcome where
  "faulty_result = send 4 sorted_list_of_fset faulty faulty_broker (Signal test1) (''a.py'', 7)"

text \<open>
  \<open>grumpy\<close>: listener 1, called with the signal \<open>test1\<close>, signals \<open>test2\<close> and then raises
  \<^verbatim>\<open>boom\<close>; listener 2 raises \<^verbatim>\<open>bang\<close> whenever it is called. \<open>grumpy_result\<close>: a
  \<open>test1\<close> signal sent on \<open>faulty_broker\<close> with these listeners.
\<close>

definition grumpy :: behaviour where
  "grumpy l h m = (if l = 1 \<and> m = Signal test1 then [ASignal test2, ARaise ''boom'']
                   else if l = 2 then [ARaise ''bang''] else [])"

definition grumpy_result :: outcome where
  "grumpy_result = send 4 sorted_list_of_fset grumpy faulty_broker (Signal test1) (''a.py'', 7)"

text \<open>
  \<open>stubborn\<close>: listener 1, called with the signal \<open>test2\<close>, signals \<open>test2\<close> again and then
  raises. \<open>stuck_broker\<close>: a new broker, listener 1 subscribed to \<open>test2\<close>, after one
  \<^verbatim>\<open>signal(test2)\<close>.
\<close>

definition stubborn :: behaviour where
  "stubborn l h m = (if l = 1 \<and> m = Signal test2 then [ASignal test2, ARaise ''boom''] else [])"

definition stuck_broker :: broker where
  "stuck_broker =
     state_of (signal 4 sorted_list_of_fset stubborn (subscribe MessageBroker_init test2 1) test2)"

text \<open>
  \<open>selfish\<close>: listener 1, whenever it is called, unsubscribes itself and subscribes
  listener 3 to \<open>test1\<close>; the others do nothing. \<open>pair_broker\<close>: a broker in the middle of a
  drain (the flag is set) with listeners 1 and 2 subscribed to \<open>test1\<close>. \<open>pair_result\<close>: the
  dispatch of one \<open>test1\<close> entry on it.
\<close>

definition selfish :: behaviour where
  "selfish l h m = (if l = 1 then [AUnsubscribe 1, ASubscribe test1 3] else [])"

definition pair_broker :: broker where
  "pair_broker = (subscribe (subscribe MessageBroker_init test1 1) test1 2)\<lparr>sending := True\<rparr>"

definition pair_result :: outcome where
  "pair_result = priv_send sorted_list_of_fset selfish (send (Suc 1) sorted_list_of_fset selfish)
                   pair_broker (Signal test1, ''a.py'', 7)"


section \<open>Lemmas\<close>

lemma enqueued_append: "enqueued (s @ t) = enqueued s @ enqueued t"
  by (induction s rule: enqueued.induct) auto

lemma dispatched_append: "dispatched (s @ t) = dispatched s @ dispatched t"
  by (induction s rule: dispatched.induct) auto

lemma invoked_append: "invoked (s @ t) = invoked s @ invoked t"
  by (induction s rule: invoked.induct) auto

lemma last_dispatched_append:
  "last_dispatched cur (s @ t) = last_dispatched (last_dispatched cur s) t"
  by (induction cur s rule: last_dispatched.induct) auto

lemma attributed_append:
  "attributed cur (s @ t) = (attributed cur s \<and> attributed (last_dispatched cur s) t)"
  by (induction cur s rule: attributed.induct) (auto split: option.splits)

lemma enqueued_map_Enqueue: "enqueued (map Enqueue es) = es"
  by (induction es) auto

lemma dispatched_map_Enqueue: "dispatched (map Enqueue es) = []"
  by (induction es) auto

lemma invoked_map_Enqueue: "invoked (map Enqueue es) = []"
  by (induction es) auto

lemma attributed_map_Enqueue: "attributed cur (map Enqueue es)"
  by (induction es) auto

lemma last_dispatched_map_Enqueue: "last_dispatched cur (map Enqueue es) = cur"
  by (induction es) auto

lemma send_Suc:
  "send (Suc n) iter B b data caller =
     priv_send_all n iter B (send n iter B) (append_message b data caller)"
  by simp

lemma send_sending:
  "sending b \<Longrightarrow> send (Suc n) iter B b data caller = Return (append_message b data caller)"
  by (simp add: priv_send_all_def append_message_def)

lemma nested_okD:
  "nested_ok sendf \<Longrightarrow> sending b \<Longrightarrow>
     sendf b d c = Return (append_message b d c) \<or> sendf b d c = OutOfFuel b"
  unfolding nested_ok_def by blast

lemma nested_ok_send: "nested_ok (send n iter B)"
  by (cases n) (auto simp: nested_ok_def priv_send_all_def append_message_def)

lemma ext_refl: "ext b b []" by (simp add: ext_def)

lemma ext_trans: "ext b b' s \<Longrightarrow> ext b' b'' t \<Longrightarrow> ext b b'' (s @ t)"
  by (simp add: ext_def enqueued_append)

lemma ext_subscribe: "ext b (subscribe b k l) []"
  by (simp add: ext_def subscribe_def split: prod.splits)

lemma ext_unsubscribe: "ext b (unsubscribe b l) []"
  by (simp add: ext_def unsubscribe_def)

lemma ext_append_message: "ext b (append_message b d c) [Enqueue (d, fst c, snd c)]"
  by (simp add: ext_def append_message_def)

lemma run_listener_ext:
  "nested_ok sendf \<Longrightarrow> sending b \<Longrightarrow>
     \<exists>es. ext b (state_of (run_listener sendf b acts)) (map Enqueue es)"
proof (induction acts arbitrary: b)
  case Nil
  show ?case using ext_refl[of b] by (auto intro: exI[of _ "[]"])
next
  case (Cons a acts)
  show ?case
  proof (cases a)
    case (ASend d c)
    from Cons.prems have "sendf b d c = Return (append_message b d c) \<or> sendf b d c = OutOfFuel b"
      by (rule nested_okD)
    then show ?thesis
    proof
      assume r: "sendf b d c = Return (append_message b d c)"
      have s: "sending (append_message b d c)" using Cons.prems by (simp add: append_message_def)
      from Cons.IH[OF Cons.prems(1) s] obtain es where
        "ext (append_message b d c) (state_of (run_listener sendf (append_message b d c) acts)) (map Enqueue es)" by blast
      with ext_trans[OF ext_append_message this]
      have "ext b (state_of (run_listener sendf b (a # acts))) (map Enqueue ((d, fst c, snd c) # es))"
        using r ASend by simp
      then show ?thesis by blast
    next
      assume r: "sendf b d c = OutOfFuel b"
      then show ?thesis using ASend ext_refl[of b] by (auto intro: exI[of _ "[]"])
    qed
  next
    case (ASignal k)
    from Cons.prems have "sendf b (Signal k) signal_origin = Return (append_message b (Signal k) signal_origin) \<or> sendf b (Signal k) signal_origin = OutOfFuel b"
      by (rule nested_okD)
    then show ?thesis
    proof
      assume r: "sendf b (Signal k) signal_origin = Return (append_message b (Signal k) signal_origin)"
      have s: "sending (append_message b (Signal k) signal_origin)" using Cons.prems by (simp add: append_message_def)
      from Cons.IH[OF Cons.prems(1) s] obtain es where
        "ext (append_message b (Signal k) signal_origin) (state_of (run_listener sendf (append_message b (Signal k) signal_origin) acts)) (map Enqueue es)" by blast
      with ext_trans[OF ext_append_message this]
      have "ext b (state_of (run_listener sendf b (a # acts))) (map Enqueue ((Signal k, fst signal_origin, snd signal_origin) # es))"
        using r ASignal by (simp add: signal_via_def)
      then show ?thesis by blast
    next
      assume r: "sendf b (Signal k) signal_origin = OutOfFuel b"
      then show ?thesis using ASignal ext_refl[of b] by (auto simp: signal_via_def intro: exI[of _ "[]"])
    qed
  next
    case (ASubscribe k l)
    have s: "sending (subscribe b k l)" using Cons.prems ext_subscribe[of b k l] by (simp add: ext_def)
    from Cons.IH[OF Cons.prems(1) s] obtain es where
      "ext (subscribe b k l) (state_of (run_listener sendf (subscribe b k l) acts)) (map Enqueue es)" by blast
    with ext_trans[OF ext_subscribe this] show ?thesis using ASubscribe by auto
  next
    case (AUnsubscribe l)
    have s: "sending (unsubscribe b l)" using Cons.prems ext_unsubscribe[of b l] by (simp add: ext_def)
    from Cons.IH[OF Cons.prems(1) s] obtain es where
      "ext (unsubscribe b l) (state_of (run_listener sendf (unsubscribe b l) acts)) (map Enqueue es)" by blast
    with ext_trans[OF ext_unsubscribe this] show ?thesis using AUnsubscribe by auto
  next
    case (ARaise e)
    then show ?thesis using ext_refl[of b] by (auto intro: exI[of _ "[]"])
  qed
qed

lemma fanout_Nil: "fanout data []" by (simp add: fanout_def)

lemma fanout_append: "fanout data (s @ t) = (fanout data s \<and> fanout data t)"
  by (simp add: fanout_def)

lemma fanout_Invoke: "fanout data (Invoke l data # t) = fanout data t"
  by (simp add: fanout_def)

lemma fanout_map_Enqueue: "fanout data (map Enqueue es)"
  by (induction es) (auto simp: fanout_def)

lemma fanout_dispatched: "fanout data t \<Longrightarrow> dispatched t = []"
  by (induction t rule: dispatched.induct) (auto simp: fanout_def)

lemma fanout_last_dispatched: "fanout data t \<Longrightarrow> last_dispatched cur t = cur"
  by (induction cur t rule: last_dispatched.induct) (auto simp: fanout_def)

lemma fanout_attributed: "fanout data t \<Longrightarrow> attributed (Some (data, f, ln)) t"
  by (induction t rule: dispatched.induct) (auto simp: fanout_def)

lemma call_listener_ext:
  assumes "nested_ok sendf" "sending b"
  shows "\<exists>es. ext b (state_of (call_listener B sendf b l data)) (Invoke l data # map Enqueue es)"
proof -
  let ?b1 = "b\<lparr>trace := trace b @ [Invoke l data]\<rparr>"
  have e1: "ext b ?b1 [Invoke l data]" by (simp add: ext_def)
  have "sending ?b1" using assms by simp
  from run_listener_ext[OF assms(1) this] obtain es where
    "ext ?b1 (state_of (run_listener sendf ?b1 (B l (trace b) data))) (map Enqueue es)" by blast
  from ext_trans[OF e1 this] show ?thesis by (auto simp: call_listener_def)
qed

lemma ext_sending: "ext b b' t \<Longrightarrow> sending b' = sending b"
  by (simp add: ext_def)

lemma invoke_all_ext:
  "nested_ok sendf \<Longrightarrow> sending b \<Longrightarrow>
     \<exists>t. ext b (state_of (invoke_all B sendf b ls data)) t \<and> fanout data t"
proof (induction ls arbitrary: b)
  case Nil
  then show ?case using ext_refl[of b] fanout_Nil by auto
next
  case (Cons l ls)
  from call_listener_ext[OF Cons.prems] obtain es where
    e1: "ext b (state_of (call_listener B sendf b l data)) (Invoke l data # map Enqueue es)"
    by blast
  have f1: "fanout data (Invoke l data # map Enqueue es)"
    by (simp add: fanout_Invoke fanout_map_Enqueue)
  show ?case
  proof (cases "call_listener B sendf b l data")
    case (Return b')
    with e1 have e1': "ext b b' (Invoke l data # map Enqueue es)" by simp
    then have "sending b'" using Cons.prems by (simp add: ext_def)
    from Cons.IH[OF Cons.prems(1) this] obtain t where
      "ext b' (state_of (invoke_all B sendf b' ls data)) t" "fanout data t" by blast
    then have "ext b (state_of (invoke_all B sendf b (l # ls) data)) ((Invoke l data # map Enqueue es) @ t)"
      and "fanout data ((Invoke l data # map Enqueue es) @ t)"
      using ext_trans[OF e1'] f1 Return by (simp_all only: fanout_append invoke_all.simps outcome.case simp_thms)
    then show ?thesis by blast
  next
    case (Raise e b')
    with e1 f1 show ?thesis by auto
  next
    case (OutOfFuel b')
    with e1 f1 show ?thesis by auto
  qed
qed

lemma priv_send_ext:
  assumes "nested_ok sendf" "sending b"
  shows "\<exists>t. ext b (state_of (priv_send iter B sendf b e)) (Dispatch e # t) \<and> fanout (fst e) t"
proof -
  obtain data f ln where e: "e = (data, f, ln)" by (cases e) auto
  obtain s d where g: "getitem (listeners b) (message_type data) = (s, d)" by force
  let ?b1 = "b\<lparr>listeners := d, trace := trace b @ [Dispatch (data, f, ln)]\<rparr>"
  have e1: "ext b ?b1 [Dispatch e]" by (simp add: ext_def e)
  have "sending ?b1" using assms by simp
  from invoke_all_ext[OF assms(1) this] obtain t where
    "ext ?b1 (state_of (invoke_all B sendf ?b1 (iter s) data)) t" "fanout data t" by blast
  with ext_trans[OF e1] show ?thesis using e g by auto
qed

lemma fifo_step:
  assumes "fifo b" "messages b = e # q" "ext (b\<lparr>messages := q\<rparr>) b' (Dispatch e # t)" "fanout (fst e) t"
  shows "fifo b'"
proof -
  have "attributed (Some e) t" using fanout_attributed[OF assms(4), of "fst (snd e)" "snd (snd e)"] by simp
  then show ?thesis using assms(1,2,3) fanout_dispatched[OF assms(4)]
    by (auto simp: fifo_def ext_def dispatched_append enqueued_append attributed_append
          fanout_last_dispatched)
qed

lemma drain_fifo:
  "nested_ok sendf \<Longrightarrow> sending b \<Longrightarrow> fifo b \<Longrightarrow>
     fifo (state_of (drain n iter B sendf b)) \<and> sending (state_of (drain n iter B sendf b))"
proof (induction n arbitrary: b)
  case 0
  then show ?case by simp
next
  case (Suc n)
  show ?case
  proof (cases "messages b")
    case Nil
    then show ?thesis using Suc.prems by simp
  next
    case (Cons e q)
    let ?b0 = "b\<lparr>messages := q\<rparr>"
    have s0: "sending ?b0" using Suc.prems by simp
    from priv_send_ext[OF Suc.prems(1) s0] obtain t where
      x: "ext ?b0 (state_of (priv_send iter B sendf ?b0 e)) (Dispatch e # t)" and f: "fanout (fst e) t"
      by blast
    have ff: "fifo (state_of (priv_send iter B sendf ?b0 e))"
      by (rule fifo_step[OF Suc.prems(3) Cons x f])
    have ss: "sending (state_of (priv_send iter B sendf ?b0 e))"
      using ext_sending[OF x] s0 by simp
    show ?thesis
    proof (cases "priv_send iter B sendf ?b0 e")
      case (Return b')
      with ff ss have "fifo b'" "sending b'" by simp_all
      from Suc.IH[OF Suc.prems(1) this(2) this(1)] show ?thesis using Cons Return by simp
    next
      case (Raise ex b')
      with ff ss show ?thesis using Cons by simp
    next
      case (OutOfFuel b')
      with ff ss show ?thesis using Cons by simp
    qed
  qed
qed

lemma fifo_append_message: "fifo b \<Longrightarrow> fifo (append_message b d c)"
  by (simp add: fifo_def append_message_def dispatched_append enqueued_append attributed_append)

lemma fifo_sending_update: "fifo (b\<lparr>sending := x\<rparr>) = fifo b"
  by (simp add: fifo_def)

lemma priv_send_all_fifo:
  assumes "nested_ok sendf" "fifo b"
  shows "fifo (state_of (priv_send_all n iter B sendf b))"
proof (cases "sending b")
  case True
  then show ?thesis using assms by (simp add: priv_send_all_def)
next
  case False
  have "fifo (b\<lparr>sending := True\<rparr>)" using assms(2) by (simp add: fifo_sending_update)
  from drain_fifo[OF assms(1) _ this, of n iter B]
  have "fifo (state_of (drain n iter B sendf (b\<lparr>sending := True\<rparr>)))" by simp
  then show ?thesis using False
    by (cases "drain n iter B sendf (b\<lparr>sending := True\<rparr>)")
       (simp_all add: priv_send_all_def fifo_sending_update)
qed

lemma send_fifo: "fifo b \<Longrightarrow> fifo (state_of (send n iter B b data caller))"
proof (cases n)
  case 0
  assume "fifo b" then show ?thesis using 0 by simp
next
  case (Suc m)
  assume "fifo b"
  then show ?thesis using Suc priv_send_all_fifo[OF nested_ok_send fifo_append_message]
    by simp
qed

lemma nested_strong_ok: "nested_strong sendf \<Longrightarrow> nested_ok sendf"
  unfolding nested_strong_def nested_ok_def by blast

lemma nested_strongD:
  "nested_strong sendf \<Longrightarrow> sending b \<Longrightarrow> sendf b d c = Return (append_message b d c)"
  unfolding nested_strong_def by blast

lemma nested_strong_send: "nested_strong (send (Suc n) iter B)"
  unfolding nested_strong_def by (simp add: priv_send_all_def append_message_def)

lemma nested_strong_enqueue_only: "nested_strong enqueue_only"
  unfolding nested_strong_def by (simp add: enqueue_only_def)

lemma sending_append_message: "sending (append_message b d c) = sending b"
  by (simp add: append_message_def)

lemma sending_subscribe: "sending (subscribe b k l) = sending b"
  by (simp add: subscribe_def split: prod.splits)

lemma sending_unsubscribe: "sending (unsubscribe b l) = sending b"
  by (simp add: unsubscribe_def)

lemma run_listener_strong:
  "nested_strong sendf \<Longrightarrow> sending b \<Longrightarrow>
     run_listener sendf b acts =
       (case first_raise acts of None \<Rightarrow> Return (effect b acts) | Some x \<Rightarrow> Raise x (effect b acts))"
proof (induction b acts rule: effect.induct)
  case (1 b)
  then show ?case by simp
next
  case (2 b d c acts)
  then show ?case by (simp add: nested_strongD sending_append_message split: option.splits)
next
  case (3 b k acts)
  then show ?case
    by (simp add: nested_strongD sending_append_message signal_via_def split: option.splits)
next
  case (4 b k l acts)
  then show ?case by (simp add: sending_subscribe split: option.splits)
next
  case (5 b l acts)
  then show ?case by (simp add: sending_unsubscribe split: option.splits)
next
  case (6 b x acts)
  then show ?case by simp
qed

lemma effect_trace: "trace (effect b acts) = trace b @ map Enqueue (sent acts)"
  by (induction b acts rule: effect.induct)
     (simp_all add: append_message_def subscribe_def unsubscribe_def split: prod.splits)

lemma effect_messages: "messages (effect b acts) = messages b @ sent acts"
  by (induction b acts rule: effect.induct)
     (simp_all add: append_message_def subscribe_def unsubscribe_def split: prod.splits)

lemma effect_sending: "sending (effect b acts) = sending b"
  by (induction b acts rule: effect.induct)
     (simp_all add: append_message_def subscribe_def unsubscribe_def split: prod.splits)

lemma effect_until_raise: "effect b (until_raise acts) = effect b acts"
  by (induction b acts rule: effect.induct) simp_all

lemma first_raise_until_raise: "first_raise (until_raise acts) = None"
  by (induction acts rule: until_raise.induct) simp_all

lemma effect_append:
  "first_raise acts = None \<Longrightarrow> effect b (acts @ acts') = effect (effect b acts) acts'"
  by (induction b acts rule: effect.induct) simp_all

lemma listeners_subscribe_cong:
  "listeners b = listeners c \<Longrightarrow> listeners (subscribe b k l) = listeners (subscribe c k l)"
  by (simp add: subscribe_def split: prod.splits)

lemma listeners_unsubscribe_cong:
  "listeners b = listeners c \<Longrightarrow> listeners (unsubscribe b l) = listeners (unsubscribe c l)"
  by (simp add: unsubscribe_def)

lemma listeners_append_message: "listeners (append_message b d c) = listeners b"
  by (simp add: append_message_def)

lemma effect_listeners_cong:
  "listeners b = listeners c \<Longrightarrow> listeners (effect b acts) = listeners (effect c acts)"
proof (induction b acts arbitrary: c rule: effect.induct)
  case (1 b)
  then show ?case by simp
next
  case (2 b d ca acts)
  from 2(1)[of "append_message c d ca"] 2(2) show ?case
    by (simp add: listeners_append_message)
next
  case (3 b k acts)
  from 3(1)[of "append_message c (Signal k) signal_origin"] 3(2) show ?case
    by (simp add: listeners_append_message)
next
  case (4 b k l acts)
  from 4(1)[of "subscribe c k l"] listeners_subscribe_cong[OF 4(2)] show ?case by simp
next
  case (5 b l acts)
  from 5(1)[of "unsubscribe c l"] listeners_unsubscribe_cong[OF 5(2)] show ?case by simp
next
  case (6 b x acts)
  then show ?case by simp
qed

lemma raised_in_append:
  "raised_in B h (s @ t) =
     (case raised_in B h s of Some x \<Rightarrow> Some x | None \<Rightarrow> raised_in B (h @ s) t)"
  by (induction B h s rule: raised_in.induct) (auto split: option.splits)

lemma stops_at_raise_append:
  "stops_at_raise B h (s @ t) =
     (case raised_in B h s of
        Some x \<Rightarrow> stops_at_raise B h s \<and> dispatched t = [] \<and> invoked t = []
      | None \<Rightarrow> stops_at_raise B (h @ s) t)"
  by (induction B h s rule: raised_in.induct)
     (auto simp: dispatched_append invoked_append split: option.splits)

lemma stops_at_raise_map_Enqueue: "stops_at_raise B h (map Enqueue es)"
  by (induction es arbitrary: h) simp_all

lemma raised_in_map_Enqueue: "raised_in B h (map Enqueue es) = None"
  by (induction es arbitrary: h) auto

lemma performed_append:
  "performed B h (s @ t) = performed B h s @ performed B (h @ s) t"
  by (induction B h s rule: performed.induct) auto

lemma performed_map_Enqueue: "performed B h (map Enqueue es) = []"
  by (induction es arbitrary: h) auto

lemma first_raise_performed: "first_raise (performed B h t) = None"
proof (induction B h t rule: performed.induct)
  case (2 B h l m t)
  have "first_raise (xs @ ys) = None" if "first_raise xs = None" "first_raise ys = None" for xs ys
    using that by (induction xs rule: first_raise.induct) auto
  then show ?case using 2 first_raise_until_raise by simp
qed simp_all

lemma call_listener_strong:
  assumes "nested_strong sendf" "sending b"
  shows "call_listener B sendf b l data =
     (case first_raise (B l (trace b) data) of
        None \<Rightarrow> Return (effect (b\<lparr>trace := trace b @ [Invoke l data]\<rparr>) (B l (trace b) data))
      | Some x \<Rightarrow> Raise x (effect (b\<lparr>trace := trace b @ [Invoke l data]\<rparr>) (B l (trace b) data)))"
  using run_listener_strong[OF assms(1), of "b\<lparr>trace := trace b @ [Invoke l data]\<rparr>"] assms(2)
  by (simp add: call_listener_def)

lemma call_effect_ext:
  "ext b (effect (b\<lparr>trace := trace b @ [Invoke l data]\<rparr>) acts)
     (Invoke l data # map Enqueue (sent acts))"
  by (simp add: ext_def effect_trace effect_messages effect_sending enqueued_map_Enqueue)

lemma call_effect_fanout: "fanout data (Invoke l data # map Enqueue es)"
  by (simp add: fanout_Invoke fanout_map_Enqueue)

lemma call_effect_invoked: "invoked (Invoke l data # map Enqueue es) = [(l, data)]"
  by (simp add: invoked_map_Enqueue)

lemma call_effect_listeners:
  "listeners (effect (b\<lparr>trace := trace b @ [Invoke l data]\<rparr>) acts)
     = listeners (effect b (until_raise acts))"
proof -
  have "listeners (b\<lparr>trace := trace b @ [Invoke l data]\<rparr>) = listeners b" by simp
  from effect_listeners_cong[OF this, of acts] show ?thesis by (simp add: effect_until_raise)
qed

lemma invoke_all_strong:
  "nested_strong sendf \<Longrightarrow> sending b \<Longrightarrow>
     \<exists>t. fan_res B b data ls (invoke_all B sendf b ls data) t"
proof (induction ls arbitrary: b)
  case Nil
  have "fan_res B b data [] (Return b) []"
    by (simp add: fan_res_def ext_refl fanout_Nil)
  then show ?case by auto
next
  case (Cons l ls)
  let ?acts = "B l (trace b) data"
  let ?b1 = "effect (b\<lparr>trace := trace b @ [Invoke l data]\<rparr>) ?acts"
  let ?t1 = "Invoke l data # map Enqueue (sent ?acts)"
  note cf = call_effect_ext[of b l data ?acts] call_effect_fanout[of data l "sent ?acts"]
    call_effect_invoked[of l data "sent ?acts"] call_effect_listeners[of b l data ?acts]
  have tr1: "trace ?b1 = trace b @ ?t1" using cf(1) by (simp add: ext_def)
  have perf1: "performed B (trace b) ?t1 = until_raise ?acts"
    by (simp add: performed_map_Enqueue)
  show ?case
  proof (cases "first_raise ?acts")
    case (Some x)
    then have r: "invoke_all B sendf b (l # ls) data = Raise x ?b1"
      using call_listener_strong[OF Cons.prems, of B l data] by simp
    have "fan_res B b data (l # ls) (Raise x ?b1) ?t1"
      unfolding fan_res_def using cf Some perf1
      by (simp add: effect_until_raise dispatched_map_Enqueue invoked_map_Enqueue)
    with r show ?thesis by auto
  next
    case None
    then have c: "call_listener B sendf b l data = Return ?b1"
      using call_listener_strong[OF Cons.prems, of B l data] by simp
    have s1: "sending ?b1" using cf(1) Cons.prems(2) by (simp add: ext_def)
    from Cons.IH[OF Cons.prems(1) s1] obtain t2 where
      f2: "fan_res B ?b1 data ls (invoke_all B sendf ?b1 ls data) t2" by blast
    let ?r = "invoke_all B sendf ?b1 ls data"
    have r: "invoke_all B sendf b (l # ls) data = ?r" using c by simp
    have ri1: "raised_in B (trace b) ?t1 = None"
      using None by (simp add: raised_in_map_Enqueue)
    have ri: "raised_in B (trace b) (?t1 @ t2) = raised_in B (trace ?b1) t2"
      using ri1 tr1 by (simp only: raised_in_append option.case)
    have pf: "performed B (trace b) (?t1 @ t2) = until_raise ?acts @ performed B (trace ?b1) t2"
      using perf1 tr1 by (simp only: performed_append)
    have "listeners (effect ?b1 (performed B (trace ?b1) t2))
            = listeners (effect (effect b (until_raise ?acts)) (performed B (trace ?b1) t2))"
      by (rule effect_listeners_cong) (rule cf(4))
    also have "\<dots> = listeners (effect b (performed B (trace b) (?t1 @ t2)))"
      by (simp only: pf effect_append[OF first_raise_until_raise])
    finally have li: "listeners (effect ?b1 (performed B (trace ?b1) t2))
            = listeners (effect b (performed B (trace b) (?t1 @ t2)))" .
    have "fan_res B b data (l # ls) ?r (?t1 @ t2)"
      unfolding fan_res_def
    proof (intro conjI)
      show "ext b (state_of ?r) (?t1 @ t2)"
        using ext_trans[OF cf(1)] f2 by (simp add: fan_res_def)
      show "fanout data (?t1 @ t2)" using cf(2) f2 by (simp only: fanout_append fan_res_def)
      show "completed ?r" using f2 by (simp add: fan_res_def)
      show "exception_of ?r = raised_in B (trace b) (?t1 @ t2)"
        using f2 ri by (simp only: fan_res_def)
      show "listeners (state_of ?r) = listeners (effect b (performed B (trace b) (?t1 @ t2)))"
        using f2 li by (simp only: fan_res_def)
      show "prefix (invoked (?t1 @ t2)) (map (\<lambda>l. (l, data)) (l # ls))"
        using f2 cf(3) by (simp add: fan_res_def invoked_append invoked_map_Enqueue)
      show "exception_of ?r = None \<longrightarrow> invoked (?t1 @ t2) = map (\<lambda>l. (l, data)) (l # ls)"
        using f2 cf(3) by (simp add: fan_res_def invoked_append invoked_map_Enqueue)
      have "stops_at_raise B (trace ?b1) t2" using f2 by (simp only: fan_res_def)
      then show "stops_at_raise B (trace b) (?t1 @ t2)"
        using ri1 tr1 by (simp only: stops_at_raise_append option.case)
    qed
    with r show ?thesis by auto
  qed
qed

lemma priv_send_strong:
  assumes "nested_strong sendf" "sending b"
  shows "\<exists>t. fan_res B (b\<lparr>listeners := snd (getitem (listeners b) (message_type data)),
                           trace := trace b @ [Dispatch (data, f, ln)]\<rparr>)
               data (iter (registered b (message_type data)))
               (priv_send iter B sendf b (data, f, ln)) t"
proof -
  obtain s d where g: "getitem (listeners b) (message_type data) = (s, d)" by force
  let ?b1 = "b\<lparr>listeners := d, trace := trace b @ [Dispatch (data, f, ln)]\<rparr>"
  have "sending ?b1" using assms by simp
  from invoke_all_strong[OF assms(1) this, of B data "iter s"]
  show ?thesis using g by (simp add: registered_def)
qed

lemma priv_send_run:
  assumes "nested_strong sendf" "sending b"
  shows "\<exists>t. ext b (state_of (priv_send iter B sendf b e)) (Dispatch e # t) \<and> fanout (fst e) t
            \<and> completed (priv_send iter B sendf b e)
            \<and> exception_of (priv_send iter B sendf b e) = raised_in B (trace b) (Dispatch e # t)
            \<and> stops_at_raise B (trace b) (Dispatch e # t)"
proof -
  obtain data f ln where e: "e = (data, f, ln)" by (cases e) auto
  let ?b1 = "b\<lparr>listeners := snd (getitem (listeners b) (message_type data)),
                           trace := trace b @ [Dispatch (data, f, ln)]\<rparr>"
  from priv_send_strong[OF assms, of B data f ln iter] obtain t where
    f: "fan_res B ?b1 data (iter (registered b (message_type data)))
          (priv_send iter B sendf b (data, f, ln)) t" by blast
  have e1: "ext b ?b1 [Dispatch e]" by (simp add: ext_def e)
  from f have "ext ?b1 (state_of (priv_send iter B sendf b e)) t" by (simp add: fan_res_def e)
  from ext_trans[OF e1 this] f show ?thesis by (auto simp: fan_res_def e)
qed

lemma drain_strong:
  "nested_strong sendf \<Longrightarrow> sending b \<Longrightarrow> \<exists>t. run_res B b (drain n iter B sendf b) t"
proof (induction n arbitrary: b)
  case 0
  have "run_res B b (OutOfFuel b) []" by (simp add: run_res_def)
  then show ?case by auto
next
  case (Suc n)
  show ?case
  proof (cases "messages b")
    case Nil
    then have "run_res B b (drain (Suc n) iter B sendf b) []" by (simp add: run_res_def)
    then show ?thesis by blast
  next
    case (Cons e q)
    let ?b0 = "b\<lparr>messages := q\<rparr>"
    let ?r1 = "priv_send iter B sendf ?b0 e"
    have s0: "sending ?b0" using Suc.prems by simp
    from priv_send_run[OF Suc.prems(1) s0, of iter B e] obtain t1 where
      x: "ext ?b0 (state_of ?r1) (Dispatch e # t1)" and c: "completed ?r1"
      and ex: "exception_of ?r1 = raised_in B (trace b) (Dispatch e # t1)"
      and st: "stops_at_raise B (trace b) (Dispatch e # t1)"
      by auto
    have tr1: "trace (state_of ?r1) = trace b @ Dispatch e # t1" using x by (simp add: ext_def)
    show ?thesis
    proof (cases ?r1)
      case (Return b1)
      then have "sending b1" using x s0 by (simp add: ext_def)
      from Suc.IH[OF Suc.prems(1) this] obtain t2 where
        r2: "run_res B b1 (drain n iter B sendf b1) t2" by blast
      let ?r = "drain n iter B sendf b1"
      have dr: "drain (Suc n) iter B sendf b = ?r" using Cons Return by simp
      have tb1: "trace b1 = trace b @ Dispatch e # t1" using tr1 Return by simp
      have "raised_in B (trace b) (Dispatch e # t1) = None" using ex Return by simp
      have rn: "raised_in B (trace b) (Dispatch e # t1) = None" using ex Return by simp
      then have "raised_in B (trace b) ((Dispatch e # t1) @ t2) = raised_in B (trace b1) t2"
        using tb1 by (simp only: raised_in_append option.case)
      moreover have "stops_at_raise B (trace b) ((Dispatch e # t1) @ t2)
          = stops_at_raise B (trace b1) t2"
        using rn tb1 by (simp only: stops_at_raise_append option.case)
      ultimately have "run_res B b ?r ((Dispatch e # t1) @ t2)"
        using r2 tb1 by (simp add: run_res_def)
      with dr show ?thesis by auto
    next
      case (Raise x1 b1)
      then have dr: "drain (Suc n) iter B sendf b = Raise x1 b1" using Cons by simp
      have "run_res B b (Raise x1 b1) (Dispatch e # t1)"
        using Raise tr1 ex st by (simp add: run_res_def)
      with dr show ?thesis by auto
    next
      case (OutOfFuel b1)
      with c show ?thesis by simp
    qed
  qed
qed

lemma run_res_sending_update:
  "run_res B b r t \<Longrightarrow> trace b0 = trace b \<Longrightarrow>
     run_res B b0 (case r of Return b' \<Rightarrow> Return (b'\<lparr>sending := False\<rparr>)
                   | Raise e b' \<Rightarrow> Raise e (b'\<lparr>sending := False\<rparr>)
                   | OutOfFuel b' \<Rightarrow> OutOfFuel b') t"
  by (cases r) (simp_all add: run_res_def)

lemma priv_send_all_strong:
  assumes "nested_strong sendf"
  shows "\<exists>t. run_res B b (priv_send_all n iter B sendf b) t
            \<or> (sending b \<and> priv_send_all n iter B sendf b = Return b)"
proof (cases "sending b")
  case True
  then show ?thesis by (simp add: priv_send_all_def)
next
  case False
  from drain_strong[OF assms, of "b\<lparr>sending := True\<rparr>" B n iter] obtain t where
    "run_res B (b\<lparr>sending := True\<rparr>) (drain n iter B sendf (b\<lparr>sending := True\<rparr>)) t" by auto
  from run_res_sending_update[OF this, of b] False show ?thesis
    by (auto simp: priv_send_all_def)
qed

lemma send_run:
  "\<exists>t. trace (state_of (send n iter B b data caller)) = trace b @ t
       \<and> exception_of (send n iter B b data caller) = raised_in B (trace b) t
       \<and> (completed (send n iter B b data caller) \<longrightarrow>
            (\<exists>t'. t = Enqueue (data, fst caller, snd caller) # t'))
       \<and> (\<forall>b'. \<not> sending b \<longrightarrow> send n iter B b data caller = Return b' \<longrightarrow> messages b' = [])
       \<and> stops_at_raise B (trace b) t"
proof (cases n)
  case 0
  then show ?thesis by simp
next
  case (Suc m)
  let ?b0 = "append_message b data caller"
  let ?e = "(data, fst caller, snd caller)"
  have t0: "trace ?b0 = trace b @ [Enqueue ?e]" by (simp add: append_message_def)
  show ?thesis
  proof (cases m)
    case 0
    then have "send n iter B b data caller = (if sending b then Return ?b0 else OutOfFuel (?b0\<lparr>sending := True\<rparr>))"
      using Suc by (simp add: priv_send_all_def append_message_def)
    then show ?thesis using t0 by auto
  next
    case (Suc k)
    have ns: "nested_strong (send m iter B)" unfolding Suc by (rule nested_strong_send)
    have sn: "send n iter B b data caller = priv_send_all m iter B (send m iter B) ?b0"
      using \<open>n = Suc m\<close> by simp
    from priv_send_all_strong[OF ns, of B ?b0 m iter]
    consider t where "run_res B ?b0 (priv_send_all m iter B (send m iter B) ?b0) t"
      | "sending ?b0" "priv_send_all m iter B (send m iter B) ?b0 = Return ?b0"
      by blast
    then show ?thesis
    proof cases
      case 1
      let ?r = "send n iter B b data caller"
      from 1 sn have rr: "run_res B ?b0 ?r t" by simp
      then have tr: "trace (state_of ?r) = trace b @ Enqueue ?e # t"
        using t0 by (simp add: run_res_def)
      have "raised_in B (trace b) (Enqueue ?e # t) = raised_in B (trace ?b0) t"
        "stops_at_raise B (trace b) (Enqueue ?e # t) = stops_at_raise B (trace ?b0) t"
        using t0 by simp_all
      with rr tr show ?thesis by (auto simp: run_res_def)
    next
      case 2
      then have "sending b" by (simp add: append_message_def)
      with 2 sn t0 show ?thesis by auto
    qed
  qed
qed

lemma send_flag_cleared:
  assumes "\<not> sending b" "completed (send n iter B b data caller)"
  shows "\<not> sending (state_of (send n iter B b data caller))"
proof (cases n)
  case 0
  with assms show ?thesis by simp
next
  case (Suc m)
  let ?b0 = "append_message b data caller"
  have "\<not> sending ?b0" using assms(1) by (simp add: append_message_def)
  then show ?thesis using assms(2) Suc
    by (cases "drain m iter B (send m iter B) (?b0\<lparr>sending := True\<rparr>)")
       (simp_all add: priv_send_all_def)
qed

lemma invoke_all_agree:
  "nested_strong f \<Longrightarrow> nested_strong g \<Longrightarrow> sending b \<Longrightarrow>
     invoke_all B f b ls data = invoke_all B g b ls data"
proof (induction ls arbitrary: b)
  case Nil
  then show ?case by simp
next
  case (Cons l ls)
  let ?b1 = "effect (b\<lparr>trace := trace b @ [Invoke l data]\<rparr>) (B l (trace b) data)"
  have s1: "sending ?b1" using Cons.prems(3) by (simp add: effect_sending)
  show ?case
    using call_listener_strong[OF Cons.prems(1,3), of B l data]
      call_listener_strong[OF Cons.prems(2,3), of B l data]
      Cons.IH[OF Cons.prems(1,2) s1]
    by (simp split: option.splits)
qed

lemma priv_send_agree:
  "nested_strong f \<Longrightarrow> nested_strong g \<Longrightarrow> sending b \<Longrightarrow>
     priv_send iter B f b e = priv_send iter B g b e"
proof -
  assume a: "nested_strong f" "nested_strong g" "sending b"
  obtain data fl ln where e: "e = (data, fl, ln)" by (cases e) auto
  obtain s d where g: "getitem (listeners b) (message_type data) = (s, d)" by force
  have "sending (b\<lparr>listeners := d, trace := trace b @ [Dispatch (data, fl, ln)]\<rparr>)"
    using a(3) by simp
  from invoke_all_agree[OF a(1,2) this, of B "iter s" data] show ?thesis
    using e g by simp
qed

lemma drain_agree:
  "nested_strong f \<Longrightarrow> nested_strong g \<Longrightarrow> sending b \<Longrightarrow>
     drain m iter B f b = drain m iter B g b"
proof (induction m arbitrary: b)
  case 0
  then show ?case by simp
next
  case (Suc m)
  show ?case
  proof (cases "messages b")
    case Nil
    then show ?thesis by simp
  next
    case (Cons e q)
    have s0: "sending (b\<lparr>messages := q\<rparr>)" using Suc.prems by simp
    note eq = priv_send_agree[OF Suc.prems(1,2) s0, of iter B e]
    show ?thesis
    proof (cases "priv_send iter B g (b\<lparr>messages := q\<rparr>) e")
      case (Return b1)
      from priv_send_ext[OF nested_strong_ok[OF Suc.prems(2)] s0, of iter B e] Return s0
      have "sending b1" by (auto simp: ext_def)
      from Suc.IH[OF Suc.prems(1,2) this] show ?thesis using Cons eq Return by simp
    next
      case (Raise x b1)
      then show ?thesis using Cons eq by simp
    next
      case (OutOfFuel b1)
      then show ?thesis using Cons eq by simp
    qed
  qed
qed

lemma since_append: "trace b' = trace b @ t \<Longrightarrow> since b b' = t"
  by (simp add: since_def)

lemma send_since:
  "exception_of (send n iter B b data caller)
     = raised_in B (trace b) (since b (state_of (send n iter B b data caller)))"
  using send_run[of n iter B b data caller] by (auto simp: since_append)

lemma send_stops:
  "stops_at_raise B (trace b) (since b (state_of (send n iter B b data caller)))"
  using send_run[of n iter B b data caller] by (auto simp: since_append)

lemma send_Return_facts:
  assumes "\<not> sending b" "fifo b" "send n iter B b data caller = Return b'"
  shows "\<not> sending b'" and "messages b' = []" and "fifo b'"
    and "dispatched (trace b') = enqueued (trace b')"
    and "\<exists>t. since b b' = Enqueue (data, fst caller, snd caller) # t"
proof -
  show s: "\<not> sending b'" using send_flag_cleared[OF assms(1), of n iter B data caller] assms(3)
    by simp
  show m: "messages b' = []" using send_run[of n iter B b data caller] assms(1,3) by auto
  show f: "fifo b'" using send_fifo[OF assms(2), of n iter B data caller] assms(3) by simp
  show "dispatched (trace b') = enqueued (trace b')" using f m by (simp add: fifo_def)
  show "\<exists>t. since b b' = Enqueue (data, fst caller, snd caller) # t"
    using send_run[of n iter B b data caller] assms(3) by (auto simp: since_append)
qed

lemma exception_of_Some: "exception_of r = Some x \<Longrightarrow> r = Raise x (state_of r)"
  by (cases r) simp_all

lemma valid_order_empty: "valid_order iter \<Longrightarrow> iter {||} = []"
proof -
  assume "valid_order iter"
  then have "fset_of_list (iter {||}) = {||}" by (simp add: valid_order_def)
  then have "set (iter {||}) = {}" by (metis bot_fset.rep_eq fset_of_list.rep_eq)
  then show ?thesis by simp
qed

lemma valid_order_set: "valid_order iter \<Longrightarrow> set (iter S) = fset S"
  by (metis valid_order_def fset_of_list.rep_eq)

lemma valid_order_distinct: "valid_order iter \<Longrightarrow> distinct (iter S)"
  by (simp add: valid_order_def)

lemma priv_send_no_listeners:
  assumes "valid_order iter" "registered b (message_type data) = {||}"
  shows "priv_send iter B sf b (data, f, ln) =
     Return (b\<lparr>listeners := snd (getitem (listeners b) (message_type data)),
              trace := trace b @ [Dispatch (data, f, ln)]\<rparr>)"
proof -
  obtain s d where g: "getitem (listeners b) (message_type data) = (s, d)" by force
  then have "s = {||}" using assms(2) by (simp add: registered_def)
  then show ?thesis using g valid_order_empty[OF assms(1)] by simp
qed

lemma registered_getitem:
  "registered (b\<lparr>listeners := snd (getitem (listeners b) k)\<rparr>) k' = registered b k'"
  by (simp add: registered_def getitem_def split: option.splits)

lemma signal_no_subscribers:
  assumes "valid_order iter" "\<not> sending c" "messages c = []" "registered c k = {||}"
  shows "\<exists>c'. signal (Suc (Suc (Suc n))) iter B c k = Return c' \<and> registered c' k = {||}
           \<and> messages c' = [] \<and> \<not> sending c' \<and> invoked (since c c') = []"
proof -
  let ?e = "(Signal k, fst signal_origin, snd signal_origin)"
  let ?c0 = "append_message c (Signal k) signal_origin"
  let ?c1 = "?c0\<lparr>sending := True\<rparr>"
  let ?sf = "send (Suc (Suc n)) iter B"
  let ?c2 = "?c1\<lparr>messages := [], listeners := snd (getitem (listeners c) k),
              trace := trace c @ [Enqueue ?e, Dispatch ?e]\<rparr>"
  have m: "messages ?c1 = [?e]" using assms(3) by (simp add: append_message_def)
  have reg: "registered (?c1\<lparr>messages := []\<rparr>) (message_type (Signal k)) = {||}"
    using assms(4) by (simp add: registered_def append_message_def)
  have "priv_send iter B ?sf (?c1\<lparr>messages := []\<rparr>) ?e = Return ?c2"
    using priv_send_no_listeners[OF assms(1) reg, of B ?sf "fst signal_origin" "snd signal_origin"]
    by (simp add: append_message_def)
  then have "drain (Suc (Suc n)) iter B ?sf ?c1 = drain (Suc n) iter B ?sf ?c2"
    using m by simp
  also have "\<dots> = Return ?c2" by simp
  finally have d: "drain (Suc (Suc n)) iter B ?sf ?c1 = Return ?c2" .
  have "\<not> sending ?c0" using assms(2) by (simp add: append_message_def)
  then have "signal (Suc (Suc (Suc n))) iter B c k = Return (?c2\<lparr>sending := False\<rparr>)"
    using d by (simp add: signal_def signal_via_def priv_send_all_def)
  moreover have "registered (?c2\<lparr>sending := False\<rparr>) k = {||}"
    using assms(4) by (simp add: registered_def getitem_def split: option.splits)
  moreover have "invoked (since c (?c2\<lparr>sending := False\<rparr>)) = []"
    by (simp add: since_def)
  ultimately show ?thesis by simp
qed

lemma registered_subscribe:
  "registered (subscribe b k l) k' = (if k' = k then finsert l (registered b k) else registered b k')"
  by (simp add: registered_def subscribe_def getitem_def split: option.splits)

lemma registered_unsubscribe: "registered (unsubscribe b l) k = registered b k |-| {|l|}"
  by (auto simp: registered_def unsubscribe_def getitem_def set_remove_def split: option.splits)

lemma registered_append_message: "registered (append_message b d c) k = registered b k"
  by (simp add: registered_def append_message_def)

lemma registered_listeners: "listeners b = listeners c \<Longrightarrow> registered b k = registered c k"
  by (simp add: registered_def)

lemma effect_registered_cong:
  "(\<And>k. registered b k = registered c k) \<Longrightarrow> registered (effect b acts) k = registered (effect c acts) k"
proof (induction b acts arbitrary: c k rule: effect.induct)
  case (1 b)
  then show ?case by simp
next
  case (2 b d ca acts)
  show ?case using 2(1)[of "append_message c d ca" k] 2(2)
    by (simp add: registered_append_message)
next
  case (3 b k' acts)
  show ?case using 3(1)[of "append_message c (Signal k') signal_origin" k] 3(2)
    by (simp add: registered_append_message)
next
  case (4 b k' l acts)
  show ?case using 4(1)[of "subscribe c k' l" k] 4(2) by (simp add: registered_subscribe)
next
  case (5 b l acts)
  show ?case using 5(1)[of "unsubscribe c l" k] 5(2) by (simp add: registered_unsubscribe)
next
  case (6 b x acts)
  then show ?case by simp
qed

lemma priv_send_since:
  fixes sendf b iter B data f ln
  defines "r \<equiv> priv_send iter B sendf b (data, f, ln)"
  assumes "nested_strong sendf" "sending b"
  shows "completed r"
    and "exception_of r = raised_in B (trace b) (since b (state_of r))"
    and "prefix (invoked (since b (state_of r)))
           (map (\<lambda>l. (l, data)) (iter (registered b (message_type data))))"
    and "exception_of r = None \<Longrightarrow> invoked (since b (state_of r))
           = map (\<lambda>l. (l, data)) (iter (registered b (message_type data)))"
    and "registered (state_of r) k
           = registered (effect b (performed B (trace b) (since b (state_of r)))) k"
    and "sending (state_of r)"
proof -
  let ?b1 = "b\<lparr>listeners := snd (getitem (listeners b) (message_type data)),
                           trace := trace b @ [Dispatch (data, f, ln)]\<rparr>"
  from priv_send_strong[OF assms(2,3), of B data f ln iter] obtain t where
    fr: "fan_res B ?b1 data (iter (registered b (message_type data))) r t"
    unfolding r_def by blast
  then have tr: "trace (state_of r) = trace b @ Dispatch (data, f, ln) # t"
    by (simp add: fan_res_def ext_def)
  then have si: "since b (state_of r) = Dispatch (data, f, ln) # t" by (rule since_append)
  show "completed r" using fr by (simp add: fan_res_def)
  show "exception_of r = raised_in B (trace b) (since b (state_of r))"
    using fr si by (simp add: fan_res_def)
  show "prefix (invoked (since b (state_of r)))
           (map (\<lambda>l. (l, data)) (iter (registered b (message_type data))))"
    using fr si by (simp add: fan_res_def)
  show "exception_of r = None \<Longrightarrow> invoked (since b (state_of r))
           = map (\<lambda>l. (l, data)) (iter (registered b (message_type data)))"
    using fr si by (simp add: fan_res_def)
  show "sending (state_of r)" using fr assms(3) by (simp add: fan_res_def ext_def)
  have "registered (state_of r) k = registered (effect ?b1 (performed B (trace ?b1) t)) k"
    using fr by (intro registered_listeners) (simp add: fan_res_def)
  also have "\<dots> = registered (effect b (performed B (trace ?b1) t)) k"
    by (rule effect_registered_cong) (simp add: registered_def getitem_def split: option.splits)
  finally show "registered (state_of r) k
           = registered (effect b (performed B (trace b) (since b (state_of r)))) k"
    using si by simp
qed

lemma subscribe_idem: "subscribe (subscribe b k l) k l = subscribe b k l"
  by (simp add: subscribe_def getitem_def split: option.splits)

lemma prefix_count_list: "prefix xs ys \<Longrightarrow> count_list xs x \<le> count_list ys x"
  by (auto simp: prefix_def)

lemma distinct_count_list_1: "distinct xs \<Longrightarrow> x \<in> set xs \<Longrightarrow> count_list xs x = 1"
  by (induction xs) (auto simp: count_list_0_iff)

lemma map_fst_pairs: "map fst (map (\<lambda>l. (l, data)) ls) = ls"
  by (induction ls) auto

lemma unreg_effect:
  "(\<And>k. l |\<notin>| registered b k) \<Longrightarrow> (\<And>k. ASubscribe k l \<notin> set acts) \<Longrightarrow>
     l |\<notin>| registered (effect b acts) k"
proof (induction b acts arbitrary: k rule: effect.induct)
  case (1 b)
  then show ?case by simp
next
  case (2 b d c acts)
  show ?case using 2(1)[of k] 2(2,3) by (simp add: registered_append_message)
next
  case (3 b k' acts)
  show ?case using 3(1)[of k] 3(2,3) by (simp add: registered_append_message)
next
  case (4 b k' l' acts)
  have "l' \<noteq> l" using 4(3)[of k'] by auto
  then show ?case using 4(1)[of k] 4(2,3) by (simp add: registered_subscribe)
next
  case (5 b l' acts)
  show ?case using 5(1)[of k] 5(2,3) by (simp add: registered_unsubscribe)
next
  case (6 b x acts)
  then show ?case by simp
qed

lemma set_until_raise: "set (until_raise acts) \<subseteq> set acts"
  by (induction acts rule: until_raise.induct) auto

lemma performed_in_behaviour:
  "a \<in> set (performed B h t) \<Longrightarrow> \<exists>l' h' m. a \<in> set (B l' h' m)"
proof (induction B h t rule: performed.induct)
  case (2 B h l m t)
  then show ?case using set_until_raise[of "B l h m"] by auto
qed auto

lemma priv_send_unreg:
  fixes sendf b iter B e l
  defines "r \<equiv> priv_send iter B sendf b e"
  assumes "nested_strong sendf" "sending b" "valid_order iter"
    and ns: "\<forall>l' h m k. ASubscribe k l \<notin> set (B l' h m)"
    and ur: "\<forall>k. l |\<notin>| registered b k"
  shows "l \<notin> fst ` set (invoked (since b (state_of r)))
       \<and> (\<forall>k. l |\<notin>| registered (state_of r) k)"
proof -
  obtain data f ln where e: "e = (data, f, ln)" by (cases e) auto
  note ps = priv_send_since[OF assms(2,3), of iter B data f ln, folded e, folded r_def]
  have "l \<notin> set (iter (registered b (message_type data)))"
    using valid_order_set[OF assms(4)] ur by simp
  then have "l \<notin> fst ` set (map (\<lambda>l. (l, data)) (iter (registered b (message_type data))))"
    by auto
  then have 1: "l \<notin> fst ` set (invoked (since b (state_of r)))"
    using set_mono_prefix[OF ps(3)] by blast
  have "ASubscribe k' l \<notin> set (performed B (trace b) (since b (state_of r)))" for k'
    using performed_in_behaviour[of "ASubscribe k' l" B] ns by blast
  then have "l |\<notin>| registered (effect b (performed B (trace b) (since b (state_of r)))) k" for k
    using unreg_effect[of l b] ur by blast
  then have "\<forall>k. l |\<notin>| registered (state_of r) k" using ps(5) by simp
  with 1 show ?thesis by simp
qed

lemma drain_unreg:
  assumes nst: "nested_strong sendf" and vo: "valid_order iter"
    and ns: "\<forall>l' h m k. ASubscribe k l \<notin> set (B l' h m)"
  shows "sending b \<Longrightarrow> \<forall>k. l |\<notin>| registered b k \<Longrightarrow>
     \<exists>t. trace (state_of (drain n iter B sendf b)) = trace b @ t \<and> l \<notin> fst ` set (invoked t)
        \<and> (\<forall>k. l |\<notin>| registered (state_of (drain n iter B sendf b)) k)"
proof (induction n arbitrary: b)
  case 0
  then show ?case by simp
next
  case (Suc n)
  show ?case
  proof (cases "messages b")
    case Nil
    then show ?thesis using Suc.prems by simp
  next
    case (Cons e q)
    let ?b0 = "b\<lparr>messages := q\<rparr>"
    let ?r1 = "priv_send iter B sendf ?b0 e"
    have s0: "sending ?b0" using Suc.prems by simp
    have u0: "\<forall>k. l |\<notin>| registered ?b0 k" using Suc.prems(2) by (simp add: registered_def)
    from priv_send_run[OF nst s0, of iter B e] obtain t1 where
      x: "ext ?b0 (state_of ?r1) (Dispatch e # t1)" by auto
    then have tr1: "trace (state_of ?r1) = trace b @ Dispatch e # t1" by (simp add: ext_def)
    then have si: "since ?b0 (state_of ?r1) = Dispatch e # t1" by (simp add: since_def)
    note pu = priv_send_unreg[OF nst s0 vo ns u0, of e]
    have i1: "l \<notin> fst ` set (invoked (Dispatch e # t1))" using pu si by simp
    have u1: "\<forall>k. l |\<notin>| registered (state_of ?r1) k" using pu by simp
    show ?thesis
    proof (cases ?r1)
      case (Return b1)
      then have sb1: "sending b1" using x s0 by (simp add: ext_def)
      have ub1: "\<forall>k. l |\<notin>| registered b1 k" using u1 Return by simp
      from Suc.IH[OF sb1 ub1] obtain t2 where
        t2: "trace (state_of (drain n iter B sendf b1)) = trace b1 @ t2"
          "l \<notin> fst ` set (invoked t2)"
          "\<forall>k. l |\<notin>| registered (state_of (drain n iter B sendf b1)) k" by blast
      have dr: "drain (Suc n) iter B sendf b = drain n iter B sendf b1" using Cons Return by simp
      have "trace (state_of (drain n iter B sendf b1)) = trace b @ (Dispatch e # t1) @ t2"
        using t2(1) tr1 Return by simp
      moreover have "l \<notin> fst ` set (invoked ((Dispatch e # t1) @ t2))"
        using i1 t2(2) by (auto simp: invoked_append)
      ultimately show ?thesis unfolding dr using t2(3) by blast
    next
      case (Raise x1 b1)
      then have dr: "drain (Suc n) iter B sendf b = ?r1" using Cons by simp
      show ?thesis unfolding dr using tr1 i1 u1 by blast
    next
      case (OutOfFuel b1)
      then have dr: "drain (Suc n) iter B sendf b = ?r1" using Cons by simp
      show ?thesis unfolding dr using tr1 i1 u1 by blast
    qed
  qed
qed

lemma send_unreg:
  assumes vo: "valid_order iter"
    and ns: "\<forall>l' h m k. ASubscribe k l \<notin> set (B l' h m)"
    and ur: "\<forall>k. l |\<notin>| registered b k"
  shows "l \<notin> fst ` set (invoked (since b (state_of (send n iter B b data caller))))
       \<and> (\<forall>k. l |\<notin>| registered (state_of (send n iter B b data caller)) k)"
proof (cases n)
  case 0
  then show ?thesis using ur by (simp add: since_def)
next
  case (Suc m)
  let ?b0 = "append_message b data caller"
  have t0: "trace ?b0 = trace b @ [Enqueue (data, fst caller, snd caller)]"
    by (simp add: append_message_def)
  have u0: "\<forall>k. l |\<notin>| registered ?b0 k" using ur by (simp add: registered_append_message)
  show ?thesis
  proof (cases "sending b")
    case True
    then have "send n iter B b data caller = Return ?b0"
      unfolding Suc by (rule send_sending)
    then show ?thesis using u0 t0 by (simp add: since_def)
  next
    case False
    let ?b1 = "?b0\<lparr>sending := True\<rparr>"
    have u1: "\<forall>k. l |\<notin>| registered ?b1 k" using u0 by (simp add: registered_def)
    have nb0: "\<not> sending ?b0" using False by (simp add: append_message_def)
    show ?thesis
    proof (cases m)
      case 0
      then have "send n iter B b data caller = OutOfFuel ?b1"
        using Suc nb0 by (simp add: priv_send_all_def)
      then show ?thesis using u1 t0 by (simp add: since_def)
    next
      case (Suc j)
      have nst: "nested_strong (send m iter B)" unfolding Suc by (rule nested_strong_send)
      let ?d = "drain m iter B (send m iter B) ?b1"
      have "sending ?b1" by simp
      from drain_unreg[OF nst vo ns this u1, of m] obtain t where
        t: "trace (state_of ?d) = trace ?b1 @ t" "l \<notin> fst ` set (invoked t)"
           "\<forall>k. l |\<notin>| registered (state_of ?d) k" by blast
      have sn: "send n iter B b data caller =
          (case ?d of Return b' \<Rightarrow> Return (b'\<lparr>sending := False\<rparr>)
                    | Raise e b' \<Rightarrow> Raise e (b'\<lparr>sending := False\<rparr>)
                    | OutOfFuel b' \<Rightarrow> OutOfFuel b')"
        using \<open>n = Suc m\<close> nb0 by (simp add: priv_send_all_def)
      have tr: "trace (state_of (send n iter B b data caller)) = trace b @ Enqueue (data, fst caller, snd caller) # t"
        using t(1) t0 unfolding sn by (cases ?d) simp_all
      have rg: "registered (state_of (send n iter B b data caller)) k = registered (state_of ?d) k" for k
        unfolding sn by (cases ?d) (simp_all add: registered_def)
      have "since b (state_of (send n iter B b data caller)) = Enqueue (data, fst caller, snd caller) # t"
        using tr by (rule since_append)
      then show ?thesis using t(2,3) rg by simp
    qed
  qed
qed

lemma unsubscribe_absent: "(\<And>k. l |\<notin>| registered b k) \<Longrightarrow> unsubscribe b l = b"
proof -
  assume a: "\<And>k. l |\<notin>| registered b k"
  have "(case listeners b k of None \<Rightarrow> None
         | Some s \<Rightarrow> (case set_remove s l of Inl KeyError \<Rightarrow> Some s | Inr s' \<Rightarrow> Some s'))
        = listeners b k" for k
    using a[of k] by (auto simp: registered_def getitem_def set_remove_def split: option.splits)
  then show ?thesis by (simp add: unsubscribe_def)
qed

lemma MessageType_name_inj: "MessageType_name k1 = MessageType_name k2 \<Longrightarrow> k1 = k2"
  by (cases k1; cases k2; simp)

lemma send_trace_Suc:
  "\<exists>t. since b (state_of (send (Suc m) iter B b data caller))
         = Enqueue (data, fst caller, snd caller) # t"
proof -
  let ?b0 = "append_message b data caller"
  have t0: "trace ?b0 = trace b @ [Enqueue (data, fst caller, snd caller)]"
    by (simp add: append_message_def)
  have "\<exists>t. trace (state_of (send (Suc m) iter B b data caller)) = trace ?b0 @ t"
  proof (cases m)
    case 0
    then show ?thesis by (simp add: priv_send_all_def)
  next
    case (Suc j)
    have ns: "nested_strong (send m iter B)" unfolding Suc by (rule nested_strong_send)
    from priv_send_all_strong[OF ns, of B ?b0 m iter] show ?thesis
      by (auto simp: run_res_def)
  qed
  then show ?thesis using t0 by (auto simp: since_def)
qed

lemma dict_eq_rel:
  "dict_eq veq d d' = (\<forall>k. rel_option veq (map_of d k) (map_of d' k))"
proof
  assume a: "dict_eq veq d d'"
  show "\<forall>k. rel_option veq (map_of d k) (map_of d' k)"
  proof
    fix k
    show "rel_option veq (map_of d k) (map_of d' k)"
    proof (cases "k \<in> set (map fst d)")
      case True
      then obtain e where e: "e \<in> set d" "fst e = k" by auto
      from a have "\<forall>x\<in>set d. case (map_of d (fst x), map_of d' (fst x)) of
          (Some v1, Some v2) \<Rightarrow> veq v1 v2 | _ \<Rightarrow> False"
        by (simp add: dict_eq_def list_all_iff)
      with e have "case (map_of d k, map_of d' k) of
          (Some v1, Some v2) \<Rightarrow> veq v1 v2 | _ \<Rightarrow> False"
        by blast
      then show ?thesis by (cases "map_of d k"; cases "map_of d' k") simp_all
    next
      case False
      then have "k \<notin> set (map fst d')" using a by (simp add: dict_eq_def)
      with False have "map_of d k = None" "map_of d' k = None"
        by (simp_all add: map_of_eq_None_iff)
      then show ?thesis by simp
    qed
  qed
next
  assume a: "\<forall>k. rel_option veq (map_of d k) (map_of d' k)"
  have "(map_of d k = None) = (map_of d' k = None)" for k
    using a[rule_format, of k] by (cases "map_of d k"; cases "map_of d' k") simp_all
  then have "dom (map_of d) = dom (map_of d')" by (auto simp: dom_def)
  then have s: "set (map fst d) = set (map fst d')" by (simp add: dom_map_of_conv_image_fst)
  have "case (map_of d k, map_of d' k) of (Some v1, Some v2) \<Rightarrow> veq v1 v2 | _ \<Rightarrow> False"
    if "k \<in> set (map fst d)" for k
  proof -
    from that obtain v where "map_of d k = Some v"
      by (metis map_of_eq_None_iff not_None_eq set_map)
    then show ?thesis using a[rule_format, of k] by (cases "map_of d' k") simp_all
  qed
  with s show "dict_eq veq d d'" by (simp add: dict_eq_def list_all_iff)
qed

lemma dict_eq_map_of: "dict_eq (=) d d' = (map_of d = map_of d')"
  by (auto simp: dict_eq_rel option.rel_eq)

lemma dict_eq_refl: "(\<And>v. veq v v) \<Longrightarrow> dict_eq veq d d"
  by (simp add: dict_eq_rel option.rel_refl)

declare match_group.simps [simp del] squeeze.simps(2) [simp del]































lemma tagged_ge: "x \<in> set (tagged k t) \<Longrightarrow> k \<le> fst x"
  by (induction k t rule: tagged.induct) (auto dest: Suc_leD)

lemma tagged_sorted: "sorted (map fst (tagged k t))"
  by (induction k t rule: tagged.induct) (auto dest: tagged_ge)

lemma tagged_attributed:
  "attributed cur t \<Longrightarrow> (j, l, m) \<in> set (tagged k t) \<Longrightarrow>
     (if j = k then \<exists>e. cur = Some e \<and> fst e = m
      else k < j \<and> j - k \<le> length (dispatched t) \<and> fst (dispatched t ! (j - k - 1)) = m)"
proof (induction cur t arbitrary: k rule: attributed.induct)
  case (1 cur)
  then show ?case by simp
next
  case (2 cur e t)
  from 2(2,3) have "attributed cur t" "(j, l, m) \<in> set (tagged k t)" by simp_all
  from 2(1)[OF this] show ?case by (auto split: if_splits)
next
  case (3 cur e t)
  from 3(2,3) have a: "attributed (Some e) t" and i: "(j, l, m) \<in> set (tagged (Suc k) t)"
    by simp_all
  note ih = 3(1)[OF a i]
  from tagged_ge[OF i] have kj: "Suc k \<le> j" by simp
  show ?case
  proof (cases "j = Suc k")
    case True
    with ih show ?thesis by simp
  next
    case False
    with ih kj have b: "Suc k < j" "j - Suc k \<le> length (dispatched t)"
      "fst (dispatched t ! (j - Suc k - 1)) = m" by simp_all
    have "j - k - 1 = Suc (j - Suc k - 1)" using b(1) by simp
    then have "(e # dispatched t) ! (j - k - 1) = dispatched t ! (j - Suc k - 1)" by simp
    with b show ?thesis by simp
  qed
next
  case (4 cur l' m' t)
  from 4(2) obtain e where c: "cur = Some e" "fst e = m'" and a: "attributed cur t"
    by (auto split: option.splits)
  from 4(3) consider "(j, l, m) = (k, l', m')" | "(j, l, m) \<in> set (tagged k t)" by auto
  then show ?case
  proof cases
    case 1
    then show ?thesis using c by simp
  next
    case 2
    from 4(1)[OF c(1) a 2] show ?thesis by (auto split: if_splits)
  qed
qed

lemma fifo_delivered_in_order: "fifo b \<Longrightarrow> delivered_in_order (trace b)"
proof -
  assume f: "fifo b"
  then have a: "attributed None (trace b)"
    and e: "enqueued (trace b) = dispatched (trace b) @ messages b"
    by (simp_all add: fifo_def)
  have "0 < j \<and> j \<le> length (enqueued (trace b)) \<and> fst (enqueued (trace b) ! (j - 1)) = m"
    if "(j, l, m) \<in> set (tagged 0 (trace b))" for j l m
  proof -
    from tagged_attributed[OF a that] have j: "0 < j" "j \<le> length (dispatched (trace b))"
      "fst (dispatched (trace b) ! (j - 1)) = m" by (auto split: if_splits)
    then have "j - 1 < length (dispatched (trace b))" by simp
    then have "enqueued (trace b) ! (j - 1) = dispatched (trace b) ! (j - 1)"
      unfolding e by (simp only: nth_append if_True)
    with j show ?thesis by (simp add: e)
  qed
  then show ?thesis by (auto simp: delivered_in_order_def list_all_iff tagged_sorted)
qed

lemma raised_in_split:
  "raised_in B h t = Some x \<Longrightarrow>
     \<exists>t1 l m t2. t = t1 @ Invoke l m # t2 \<and> raised_in B h t1 = None
        \<and> first_raise (B l (h @ t1) m) = Some x
        \<and> stops_at_raise B h t = (dispatched t2 = [] \<and> invoked t2 = [])"
proof (induction B h t rule: raised_in.induct)
  case (1 B h)
  then show ?case by simp
next
  case (2 B h l m t)
  show ?case
  proof (cases "first_raise (B l h m)")
    case None
    with 2 obtain t1 l' m' t2 where
      "t = t1 @ Invoke l' m' # t2" "raised_in B (h @ [Invoke l m]) t1 = None"
      "first_raise (B l' ((h @ [Invoke l m]) @ t1) m') = Some x"
      "stops_at_raise B (h @ [Invoke l m]) t = (dispatched t2 = [] \<and> invoked t2 = [])"
      by auto
    with None have "Invoke l m # t = (Invoke l m # t1) @ Invoke l' m' # t2
        \<and> raised_in B h (Invoke l m # t1) = None
        \<and> first_raise (B l' (h @ Invoke l m # t1) m') = Some x
        \<and> stops_at_raise B h (Invoke l m # t) = (dispatched t2 = [] \<and> invoked t2 = [])"
      by simp
    then show ?thesis by blast
  next
    case (Some y)
    with 2 have "Invoke l m # t = [] @ Invoke l m # t \<and> raised_in B h [] = None
        \<and> first_raise (B l (h @ []) m) = Some x
        \<and> stops_at_raise B h (Invoke l m # t) = (dispatched t = [] \<and> invoked t = [])"
      by simp
    then show ?thesis by blast
  qed
next
  case (3 B h e t)
  then obtain t1 l' m' t2 where
      "t = t1 @ Invoke l' m' # t2" "raised_in B (h @ [Enqueue e]) t1 = None"
      "first_raise (B l' ((h @ [Enqueue e]) @ t1) m') = Some x"
      "stops_at_raise B (h @ [Enqueue e]) t = (dispatched t2 = [] \<and> invoked t2 = [])"
    by auto
  then have "Enqueue e # t = (Enqueue e # t1) @ Invoke l' m' # t2
        \<and> raised_in B h (Enqueue e # t1) = None
        \<and> first_raise (B l' (h @ Enqueue e # t1) m') = Some x
        \<and> stops_at_raise B h (Enqueue e # t) = (dispatched t2 = [] \<and> invoked t2 = [])"
    by simp
  then show ?case by blast
next
  case (4 B h e t)
  then obtain t1 l' m' t2 where
      "t = t1 @ Invoke l' m' # t2" "raised_in B (h @ [Dispatch e]) t1 = None"
      "first_raise (B l' ((h @ [Dispatch e]) @ t1) m') = Some x"
      "stops_at_raise B (h @ [Dispatch e]) t = (dispatched t2 = [] \<and> invoked t2 = [])"
    by auto
  then have "Dispatch e # t = (Dispatch e # t1) @ Invoke l' m' # t2
        \<and> raised_in B h (Dispatch e # t1) = None
        \<and> first_raise (B l' (h @ Dispatch e # t1) m') = Some x
        \<and> stops_at_raise B h (Dispatch e # t) = (dispatched t2 = [] \<and> invoked t2 = [])"
    by simp
  then show ?case by blast
qed

lemma last_dispatched_none: "dispatched t = [] \<Longrightarrow> last_dispatched cur t = cur"
  by (induction cur t rule: last_dispatched.induct) auto

lemma send_trace_since:
  "trace (state_of (send n iter B b data caller))
     = trace b @ since b (state_of (send n iter B b data caller))"
  using send_run[of n iter B b data caller] by (auto simp: since_append)

lemma fifo_since:
  assumes "fifo b" "fifo b'" "trace b' = trace b @ t"
  shows "dispatched t @ messages b' = messages b @ enqueued t"
proof -
  have "dispatched (trace b) @ dispatched t @ messages b'
      = dispatched (trace b) @ messages b @ enqueued t"
    using assms by (simp add: fifo_def dispatched_append enqueued_append)
  then show ?thesis by simp
qed

lemma failing_entry_last:
  assumes "attributed None (h @ t1 @ Invoke l m # t2)" "dispatched t2 = []"
  shows "\<exists>e. last_dispatched None (h @ t1 @ Invoke l m # t2) = Some e \<and> fst e = m"
proof -
  have "attributed None ((h @ t1) @ Invoke l m # t2)" using assms(1) by simp
  then have "attributed (last_dispatched None (h @ t1)) (Invoke l m # t2)"
    by (simp only: attributed_append)
  then obtain e where e: "last_dispatched None (h @ t1) = Some e" "fst e = m"
    by (cases "last_dispatched None (h @ t1)") auto
  have "last_dispatched None ((h @ t1) @ Invoke l m # t2) = last_dispatched (Some e) t2"
    using e by (simp only: last_dispatched_append) simp
  with e assms(2) show ?thesis by (simp add: last_dispatched_none)
qed

section \<open>The claims\<close>

lemma valid_order_sorted: "valid_order sorted_list_of_fset"
proof -
  have "fset_of_list (sorted_list_of_fset S) = S" for S :: "nat fset"
    by (rule fset_eqI) (simp add: fset_of_list_elem)
  then show ?thesis by (simp add: valid_order_def sorted_list_of_fset.rep_eq)
qed

lemma fifo_init: "fifo MessageBroker_init"
  by (simp add: fifo_def MessageBroker_init_def)

lemma fifo_subscribe: "fifo (subscribe b k l) = fifo b"
  by (simp add: fifo_def subscribe_def split: prod.splits)

lemma fifo_unsubscribe: "fifo (unsubscribe b l) = fifo b"
  by (simp add: fifo_def unsubscribe_def)

text \<open>
  With listener 1 relaying \<open>test1\<close> to \<open>test2\<close>: the signal \<open>test2\<close> is enqueued while
  listener 1 handles \<open>test1\<close>, and listener 2 is called with it only after listener 3 has
  been called with \<open>test1\<close>.
\<close>

lemma relay_trace:
  "trace (state_of (send 4 sorted_list_of_fset relay relay_broker (Signal test1) (''a.py'', 7))) =
     [Enqueue (Signal test1, ''a.py'', 7), Dispatch (Signal test1, ''a.py'', 7),
      Invoke 1 (Signal test1), Enqueue (Signal test2, ''message_broker.py'', 109),
      Invoke 3 (Signal test1), Dispatch (Signal test2, ''message_broker.py'', 109),
      Invoke 2 (Signal test2)]"
  by code_simp

text \<open>
  C1. The first-in-first-out law \<open>fifo\<close> holds of a new broker and is kept by every public
  operation, whatever the listeners do and however the call ends (return, exception, or
  still running when the fuel is used up): at every moment the entries dispatched so far,
  followed by the queue, are the entries enqueued so far in their order, and every
  listener call was made with the message of the entry dispatched last before it. Hence
  (\<open>delivered_in_order\<close>) the listener calls for an entry enqueued earlier all come before
  the listener calls for an entry enqueued later. An entry that a listener sends while it
  handles \<open>M1\<close> is enqueued behind the entries enqueued before it, and its listeners are
  called only after the dispatch of \<open>M1\<close> is over: never depth-first.
\<close>

theorem fifo_delivery_order:
  "fifo MessageBroker_init
   \<and> (fifo b \<longrightarrow>
        delivered_in_order (trace b)
      \<and> fifo (state_of (send n iter B b data caller))
      \<and> fifo (state_of (signal n iter B b k))
      \<and> fifo (subscribe b k l)
      \<and> fifo (unsubscribe b l))"
  by (simp add: fifo_init send_fifo signal_def signal_via_def fifo_subscribe fifo_unsubscribe
      fifo_delivered_in_order)

theorem fifo_delivery_order_witness:
  "fifo relay_broker
   \<and> fifo (state_of (send 4 sorted_list_of_fset relay relay_broker (Signal test1) (''a.py'', 7)))
   \<and> delivered_in_order (trace (state_of
        (send 4 sorted_list_of_fset relay relay_broker (Signal test1) (''a.py'', 7))))
   \<and> tagged 0 (trace (state_of
        (send 4 sorted_list_of_fset relay relay_broker (Signal test1) (''a.py'', 7)))) =
       [(1, 1, Signal test1), (1, 3, Signal test1), (2, 2, Signal test2)]"
proof -
  let ?b' = "state_of (send 4 sorted_list_of_fset relay relay_broker (Signal test1) (''a.py'', 7))"
  have h: "fifo relay_broker"
    by (simp add: relay_broker_def fifo_subscribe fifo_init)
  have t: "tagged 0 (trace ?b') = [(1, 1, Signal test1), (1, 3, Signal test1), (2, 2, Signal test2)]"
    by code_simp
  from h fifo_delivery_order[where b=relay_broker and n=4 and iter=sorted_list_of_fset
      and B=relay and data="Signal test1" and caller="(''a.py'', 7)"]
  have f: "fifo ?b'" by blast
  with fifo_delivery_order[where b="?b'"] have "delivered_in_order (trace ?b')" by blast
  with h f t show ?thesis by blast
qed

lemma outcome_Return: "completed r \<Longrightarrow> exception_of r = None \<Longrightarrow> r = Return (state_of r)"
  by (cases r) simp_all

text \<open>
  C2. A \<^verbatim>\<open>send\<close> made while the flag is set (broker \<open>c\<close>) appends its entry and returns,
  nothing else; and a drain in progress gives the same outcome whether the listeners'
  calls of \<^verbatim>\<open>send\<close> are the real \<^verbatim>\<open>send\<close> or one that can only append: no call made during
  a drain starts a second drain. A \<^verbatim>\<open>send\<close> made with the flag clear (broker \<open>b\<close>) that
  returns has cleared the flag again, has left the queue empty and has dispatched every
  entry enqueued up to then, its own entry and those appended by listeners meanwhile.
\<close>

theorem one_drain_at_a_time:
  "(sending c \<longrightarrow>
        send (Suc n) iter B c data caller = Return (append_message c data caller)
      \<and> drain m iter B (send (Suc n) iter B) c = drain m iter B enqueue_only c)
   \<and> (\<not> sending b \<and> fifo b \<and> send n iter B b data caller = Return b' \<longrightarrow>
        \<not> sending b' \<and> messages b' = []
      \<and> dispatched (trace b') = enqueued (trace b')
      \<and> (data, fst caller, snd caller) \<in> set (enqueued (since b b')))"
proof (intro conjI impI)
  assume s: "sending c"
  show "send (Suc n) iter B c data caller = Return (append_message c data caller)"
    using s by (rule send_sending)
  show "drain m iter B (send (Suc n) iter B) c = drain m iter B enqueue_only c"
    using nested_strong_send nested_strong_enqueue_only s by (rule drain_agree)
next
  assume a: "\<not> sending b \<and> fifo b \<and> send n iter B b data caller = Return b'"
  then have a1: "\<not> sending b" and a2: "fifo b" and a3: "send n iter B b data caller = Return b'"
    by simp_all
  note f = send_Return_facts[OF a1 a2 a3]
  show "\<not> sending b'" by (rule f(1))
  show "messages b' = []" by (rule f(2))
  show "dispatched (trace b') = enqueued (trace b')" by (rule f(4))
  from f(5) show "(data, fst caller, snd caller) \<in> set (enqueued (since b b'))" by auto
qed

theorem one_drain_at_a_time_witness:
  "sending (relay_broker\<lparr>sending := True\<rparr>)
   \<and> send (Suc 4) sorted_list_of_fset relay (relay_broker\<lparr>sending := True\<rparr>) (Signal test1) (''a.py'', 7)
       = Return (append_message (relay_broker\<lparr>sending := True\<rparr>) (Signal test1) (''a.py'', 7))
   \<and> \<not> sending relay_broker \<and> fifo relay_broker
   \<and> messages (state_of
        (send 4 sorted_list_of_fset relay relay_broker (Signal test1) (''a.py'', 7))) = []
   \<and> dispatched (trace (state_of
        (send 4 sorted_list_of_fset relay relay_broker (Signal test1) (''a.py'', 7)))) =
       [(Signal test1, ''a.py'', 7), (Signal test2, ''message_broker.py'', 109)]"
proof -
  let ?r = "send 4 sorted_list_of_fset relay relay_broker (Signal test1) (''a.py'', 7)"
  have h1: "\<not> sending relay_broker" by code_simp
  have h2: "fifo relay_broker" by (simp add: relay_broker_def fifo_subscribe fifo_init)
  have "completed ?r" "exception_of ?r = None" by code_simp+
  then have h3: "?r = Return (state_of ?r)" by (rule outcome_Return)
  have d: "dispatched (trace (state_of ?r)) =
       [(Signal test1, ''a.py'', 7), (Signal test2, ''message_broker.py'', 109)]"
    by code_simp
  from one_drain_at_a_time[of "relay_broker\<lparr>sending := True\<rparr>" 4 sorted_list_of_fset relay
      "Signal test1" "(''a.py'', 7)" 0 relay_broker "state_of ?r"] h1 h2 h3 d
  show ?thesis by simp
qed

text \<open>
  C4, as the code has it. Take a \<^verbatim>\<open>send\<close> made with the flag clear (\<open>r\<close>), in whose
  course a listener raised \<open>x\<close> (the first call recorded in its history whose body raises). Then the \<^verbatim>\<open>send\<close> has
  ended and its outcome is that exception, and the flag is clear afterwards. The drain
  stopped there: the history of the call is some events \<open>t1\<close> in which no listener raises,
  the failing call, and then \<open>t2\<close>, which records no dispatch and no listener call; the
  entry dispatched last is the one the failing listener was called with. What was in the
  queue before, followed by what was enqueued during the call, is what was dispatched
  during the call followed by what is in the queue afterwards: the entries behind the
  failing one are still queued. A later \<^verbatim>\<open>send\<close> on that broker (\<open>r'\<close>) dispatches an initial
  part of the entries left over followed by the entries enqueued since, the only
  exception that can leave it is one raised by a listener, and when it has ended with
  no listener raising it has returned, having dispatched the entries left over first, in
  their order, then its own entry, and it leaves the queue empty.
\<close>

theorem listener_exception_propagates:
  fixes n iter B b data caller n' data' caller'
  defines "r \<equiv> send n iter B b data caller"
  defines "r' \<equiv> send n' iter B (state_of r) data' caller'"
  assumes "fifo b" and "\<not> sending b"
    and "raised_in B (trace b) (since b (state_of r)) = Some x"
  shows "r = Raise x (state_of r)
       \<and> \<not> sending (state_of r)
       \<and> stops_at_raise B (trace b) (since b (state_of r))
       \<and> (\<exists>t1 l m t2 e. since b (state_of r) = t1 @ Invoke l m # t2
            \<and> raised_in B (trace b) t1 = None
            \<and> first_raise (B l (trace b @ t1) m) = Some x
            \<and> dispatched t2 = [] \<and> invoked t2 = []
            \<and> last_dispatched None (trace (state_of r)) = Some e \<and> fst e = m)
       \<and> dispatched (since b (state_of r)) @ messages (state_of r)
           = messages b @ enqueued (since b (state_of r))
       \<and> dispatched (trace (state_of r)) @ messages (state_of r) = enqueued (trace (state_of r))
       \<and> exception_of r' = raised_in B (trace (state_of r)) (since (state_of r) (state_of r'))
       \<and> dispatched (since (state_of r) (state_of r')) @ messages (state_of r')
           = messages (state_of r) @ enqueued (since (state_of r) (state_of r'))
       \<and> (completed r'
            \<and> raised_in B (trace (state_of r)) (since (state_of r) (state_of r')) = None \<longrightarrow>
              r' = Return (state_of r')
            \<and> messages (state_of r') = [] \<and> \<not> sending (state_of r')
            \<and> (\<exists>rest. dispatched (trace (state_of r')) =
                  dispatched (trace (state_of r)) @ messages (state_of r)
                    @ (data', fst caller', snd caller') # rest))"
proof (intro conjI impI)
  have "exception_of r = Some x" using send_since[of n iter B b data caller] assms by simp
  then show "r = Raise x (state_of r)" by (rule exception_of_Some)
  then have "completed r" by (cases r) simp_all
  then show ns: "\<not> sending (state_of r)"
    using send_flag_cleared[of b n iter B data caller] assms by simp
  have ff: "fifo (state_of r)" unfolding r_def using assms(3) by (rule send_fifo)
  have tr: "trace (state_of r) = trace b @ since b (state_of r)"
    unfolding r_def by (rule send_trace_since)
  show st: "stops_at_raise B (trace b) (since b (state_of r))"
    unfolding r_def by (rule send_stops)
  from raised_in_split[OF assms(5)] st obtain t1 l m t2 where
    sp: "since b (state_of r) = t1 @ Invoke l m # t2" "raised_in B (trace b) t1 = None"
      "first_raise (B l (trace b @ t1) m) = Some x" "dispatched t2 = []" "invoked t2 = []"
    by auto
  have "attributed None (trace b @ t1 @ Invoke l m # t2)"
    using ff tr sp(1) by (simp add: fifo_def)
  from failing_entry_last[OF this sp(4)] obtain e where
    "last_dispatched None (trace (state_of r)) = Some e" "fst e = m"
    using tr sp(1) by auto
  with sp show "\<exists>t1 l m t2 e. since b (state_of r) = t1 @ Invoke l m # t2
            \<and> raised_in B (trace b) t1 = None
            \<and> first_raise (B l (trace b @ t1) m) = Some x
            \<and> dispatched t2 = [] \<and> invoked t2 = []
            \<and> last_dispatched None (trace (state_of r)) = Some e \<and> fst e = m"
    by blast
  show "dispatched (since b (state_of r)) @ messages (state_of r)
           = messages b @ enqueued (since b (state_of r))"
    using assms(3) ff tr by (rule fifo_since)
  show "dispatched (trace (state_of r)) @ messages (state_of r) = enqueued (trace (state_of r))"
    using ff by (simp add: fifo_def)
  show "exception_of r' = raised_in B (trace (state_of r)) (since (state_of r) (state_of r'))"
    unfolding r'_def by (rule send_since)
  have ff': "fifo (state_of r')" unfolding r'_def using ff by (rule send_fifo)
  have tr': "trace (state_of r') = trace (state_of r) @ since (state_of r) (state_of r')"
    unfolding r'_def by (rule send_trace_since)
  show "dispatched (since (state_of r) (state_of r')) @ messages (state_of r')
           = messages (state_of r) @ enqueued (since (state_of r) (state_of r'))"
    using ff ff' tr' by (rule fifo_since)
  assume a: "completed r'
      \<and> raised_in B (trace (state_of r)) (since (state_of r) (state_of r')) = None"
  then have "exception_of r' = None"
    using send_since[of n' iter B "state_of r" data' caller'] by (simp add: r'_def)
  with a show rr: "r' = Return (state_of r')" by (intro outcome_Return) simp_all
  then have a': "send n' iter B (state_of r) data' caller' = Return (state_of r')"
    by (simp add: r'_def)
  note f = send_Return_facts[OF ns ff a']
  show "messages (state_of r') = []" by (rule f(2))
  show "\<not> sending (state_of r')" by (rule f(1))
  from f(5) obtain t where
    t: "since (state_of r) (state_of r') = Enqueue (data', fst caller', snd caller') # t"
    by blast
  with tr' have "trace (state_of r')
      = trace (state_of r) @ Enqueue (data', fst caller', snd caller') # t"
    by simp
  then have "enqueued (trace (state_of r')) =
      enqueued (trace (state_of r)) @ (data', fst caller', snd caller') # enqueued t"
    by (simp add: enqueued_append)
  moreover have "enqueued (trace (state_of r)) =
      dispatched (trace (state_of r)) @ messages (state_of r)"
    using ff by (simp add: fifo_def)
  ultimately have "dispatched (trace (state_of r')) =
      dispatched (trace (state_of r)) @ messages (state_of r)
        @ (data', fst caller', snd caller') # enqueued t"
    using f(4) by simp
  then show "\<exists>rest. dispatched (trace (state_of r')) =
                  dispatched (trace (state_of r)) @ messages (state_of r)
                    @ (data', fst caller', snd caller') # rest"
    by blast
qed

theorem listener_exception_propagates_witness:
  "fifo faulty_broker \<and> \<not> sending faulty_broker
   \<and> raised_in faulty (trace faulty_broker) (since faulty_broker (state_of faulty_result))
       = Some ''boom''
   \<and> faulty_result = Raise ''boom'' (state_of faulty_result)
   \<and> \<not> sending (state_of faulty_result)
   \<and> stops_at_raise faulty (trace faulty_broker) (since faulty_broker (state_of faulty_result))
   \<and> since faulty_broker (state_of faulty_result)
       = [Enqueue (Signal test1, ''a.py'', 7), Dispatch (Signal test1, ''a.py'', 7),
          Invoke 1 (Signal test1), Enqueue (Signal test2, ''message_broker.py'', 109)]
   \<and> messages (state_of faulty_result) = [(Signal test2, ''message_broker.py'', 109)]
   \<and> completed (send 4 sorted_list_of_fset faulty (state_of faulty_result)
         (Signal test2) (''b.py'', 9))
   \<and> raised_in faulty (trace (state_of faulty_result)) (since (state_of faulty_result)
         (state_of (send 4 sorted_list_of_fset faulty (state_of faulty_result)
            (Signal test2) (''b.py'', 9)))) = None
   \<and> messages (state_of (send 4 sorted_list_of_fset faulty (state_of faulty_result)
         (Signal test2) (''b.py'', 9))) = []
   \<and> dispatched (trace (state_of (send 4 sorted_list_of_fset faulty (state_of faulty_result)
         (Signal test2) (''b.py'', 9)))) =
       [(Signal test1, ''a.py'', 7), (Signal test2, ''message_broker.py'', 109),
        (Signal test2, ''b.py'', 9)]"
proof -
  let ?r2 = "send 4 sorted_list_of_fset faulty (state_of faulty_result) (Signal test2) (''b.py'', 9)"
  have h1: "fifo faulty_broker" by (simp add: faulty_broker_def fifo_subscribe fifo_init)
  have h2: "\<not> sending faulty_broker" by code_simp
  have h4: "raised_in faulty (trace faulty_broker) (since faulty_broker (state_of
      (send 4 sorted_list_of_fset faulty faulty_broker (Signal test1) (''a.py'', 7)))) = Some ''boom''"
    by code_simp
  have d: "since faulty_broker (state_of faulty_result)
       = [Enqueue (Signal test1, ''a.py'', 7), Dispatch (Signal test1, ''a.py'', 7),
          Invoke 1 (Signal test1), Enqueue (Signal test2, ''message_broker.py'', 109)]"
    "messages (state_of faulty_result) = [(Signal test2, ''message_broker.py'', 109)]"
    by code_simp+
  have h5: "completed ?r2"
    "raised_in faulty (trace (state_of faulty_result))
       (since (state_of faulty_result) (state_of ?r2)) = None" by code_simp+
  have d2: "dispatched (trace (state_of ?r2)) =
       [(Signal test1, ''a.py'', 7), (Signal test2, ''message_broker.py'', 109),
        (Signal test2, ''b.py'', 9)]"
    by code_simp
  note t = listener_exception_propagates[OF h1 h2 h4, where n'=4 and data'="Signal test2"
      and caller'="(''b.py'', 9)", folded faulty_result_def]
  from t h5 have m2: "messages (state_of ?r2) = []" by blast
  from t have "faulty_result = Raise ''boom'' (state_of faulty_result)"
    "\<not> sending (state_of faulty_result)"
    "stops_at_raise faulty (trace faulty_broker) (since faulty_broker (state_of faulty_result))"
    by blast+
  with h1 h2 h4 h5 d d2 m2 show ?thesis by (simp add: faulty_result_def)
qed

text \<open>
  The claim as stated fails in its last part: a later \<^verbatim>\<open>send\<close> need not succeed. Here the
  first \<^verbatim>\<open>send\<close> fails with \<^verbatim>\<open>boom\<close> and leaves the \<open>test2\<close> signal of listener 1 in the
  queue. A later \<^verbatim>\<open>send\<close> of an \<open>init\<close> signal, a kind nobody is subscribed to, dispatches
  that entry first; listener 2 raises \<^verbatim>\<open>bang\<close>, the later \<^verbatim>\<open>send\<close> fails with it, and
  its own entry stays in the queue, not delivered.
\<close>

theorem later_send_can_fail:
  "exception_of grumpy_result = Some ''boom''
   \<and> messages (state_of grumpy_result) = [(Signal test2, ''message_broker.py'', 109)]
   \<and> \<not> sending (state_of grumpy_result)
   \<and> registered (state_of grumpy_result) init = {||}
   \<and> exception_of (send 4 sorted_list_of_fset grumpy (state_of grumpy_result)
         (Signal init) (''b.py'', 9)) = Some ''bang''
   \<and> since (state_of grumpy_result)
        (state_of (send 4 sorted_list_of_fset grumpy (state_of grumpy_result)
           (Signal init) (''b.py'', 9)))
       = [Enqueue (Signal init, ''b.py'', 9), Dispatch (Signal test2, ''message_broker.py'', 109),
          Invoke 2 (Signal test2)]
   \<and> messages (state_of (send 4 sorted_list_of_fset grumpy (state_of grumpy_result)
         (Signal init) (''b.py'', 9))) = [(Signal init, ''b.py'', 9)]"
  by code_simp

text \<open>
  C9, as the code has it. A \<^verbatim>\<open>send\<close> fails only with the exception of a listener: one in
  whose course no listener call raised has not failed, and has returned if it has ended. In particular, on
  a broker whose flag is clear and whose queue is empty, \<^verbatim>\<open>signal(k)\<close> for a kind \<open>k\<close>
  without subscribers returns (with three units of fuel or more), and afterwards the set
  of listeners of \<open>k\<close> is empty, the queue is empty, the flag is clear and no listener
  has been called.
\<close>

theorem send_fails_only_by_listener:
  "(raised_in B (trace b) (since b (state_of (send n iter B b data caller))) = None
      \<longrightarrow> exception_of (send n iter B b data caller) = None
        \<and> (completed (send n iter B b data caller)
             \<longrightarrow> (\<exists>b'. send n iter B b data caller = Return b')))
   \<and> (valid_order iter \<and> \<not> sending c \<and> messages c = [] \<and> registered c k = {||} \<longrightarrow>
        (\<exists>c'. signal (Suc (Suc (Suc m))) iter B c k = Return c' \<and> registered c' k = {||}
           \<and> messages c' = [] \<and> \<not> sending c' \<and> invoked (since c c') = []))"
proof (intro conjI impI)
  assume a: "raised_in B (trace b) (since b (state_of (send n iter B b data caller))) = None"
  then show e: "exception_of (send n iter B b data caller) = None"
    using send_since[of n iter B b data caller] by simp
  assume "completed (send n iter B b data caller)"
  with e have "send n iter B b data caller = Return (state_of (send n iter B b data caller))"
    using outcome_Return by blast
  then show "\<exists>b'. send n iter B b data caller = Return b'" ..
next
  assume "valid_order iter \<and> \<not> sending c \<and> messages c = [] \<and> registered c k = {||}"
  then show "\<exists>c'. signal (Suc (Suc (Suc m))) iter B c k = Return c' \<and> registered c' k = {||}
           \<and> messages c' = [] \<and> \<not> sending c' \<and> invoked (since c c') = []"
    using signal_no_subscribers by blast
qed

theorem send_fails_only_by_listener_witness:
  "completed (send 4 sorted_list_of_fset relay relay_broker (Signal test1) (''a.py'', 7))
   \<and> raised_in relay (trace relay_broker) (since relay_broker (state_of
        (send 4 sorted_list_of_fset relay relay_broker (Signal test1) (''a.py'', 7)))) = None
   \<and> exception_of (send 4 sorted_list_of_fset relay relay_broker (Signal test1) (''a.py'', 7)) = None
   \<and> valid_order sorted_list_of_fset \<and> \<not> sending relay_broker \<and> messages relay_broker = []
   \<and> registered relay_broker init = {||}
   \<and> completed (signal 3 sorted_list_of_fset relay relay_broker init)
   \<and> exception_of (signal 3 sorted_list_of_fset relay relay_broker init) = None
   \<and> registered (state_of (signal 3 sorted_list_of_fset relay relay_broker init)) init = {||}"
proof -
  let ?r = "send 4 sorted_list_of_fset relay relay_broker (Signal test1) (''a.py'', 7)"
  have h1: "completed ?r" by code_simp
  have h2: "raised_in relay (trace relay_broker) (since relay_broker (state_of ?r)) = None"
    by code_simp
  have h3: "\<not> sending relay_broker" "messages relay_broker = []"
    "registered relay_broker init = {||}" by code_simp+
  note t = send_fails_only_by_listener[where n=4 and iter=sorted_list_of_fset and B=relay
      and b=relay_broker and data="Signal test1" and caller="(''a.py'', 7)" and c=relay_broker
      and k=init and m=0]
  from t h1 h2 obtain b' where "?r = Return b'" by blast
  then have c1: "exception_of ?r = None" by simp
  from t h3 valid_order_sorted obtain c' where
    "signal (Suc (Suc (Suc 0))) sorted_list_of_fset relay relay_broker init = Return c'"
    "registered c' init = {||}" by blast
  then have c2: "completed (signal 3 sorted_list_of_fset relay relay_broker init)"
    "exception_of (signal 3 sorted_list_of_fset relay relay_broker init) = None"
    "registered (state_of (signal 3 sorted_list_of_fset relay relay_broker init)) init = {||}"
    by (simp_all add: numeral_3_eq_3)
  from h1 h2 h3 c1 c2 valid_order_sorted show ?thesis by simp
qed

text \<open>
  The claim as stated fails. With a listener that raises, \<^verbatim>\<open>signal(test2)\<close> fails; if the
  listener has sent before it raises, its entry stays in the queue, and on that broker
  \<^verbatim>\<open>signal(test1)\<close>, for the kind \<open>test1\<close> that has no subscriber, fails too: the drain it
  starts dispatches the entry left over first.
\<close>

theorem send_can_fail:
  "exception_of (signal 4 sorted_list_of_fset stubborn (subscribe MessageBroker_init test2 1) test2)
     = Some ''boom''
   \<and> registered stuck_broker test1 = {||} \<and> \<not> sending stuck_broker
   \<and> exception_of (signal 4 sorted_list_of_fset stubborn stuck_broker test1) = Some ''boom''"
  by code_simp

text \<open>
  C3. The dispatch of one entry during a drain (\<^verbatim>\<open>_send\<close>, the flag set), whatever the
  listeners subscribe or unsubscribe while they run. The snapshot is the list of the set
  registered for the kind of the entry when the dispatch starts, each listener once. The
  dispatch ends; the only exception that can leave it is the one a listener raised
  itself (there is no error for changing the set during the iteration); the listeners
  called are those of the snapshot, in its order, and all of them when no listener
  raised. The registry after the dispatch is the registry before it with the subscribe
  and unsubscribe calls of the listeners applied in order: it is the one from which the
  next dispatch takes its snapshot.
\<close>

theorem snapshot_dispatch:
  fixes n iter B b data f ln
  defines "r \<equiv> priv_send iter B (send (Suc n) iter B) b (data, f, ln)"
  defines "snapshot \<equiv> iter (registered b (message_type data))"
  assumes "valid_order iter" and "sending b"
  shows "set snapshot = fset (registered b (message_type data)) \<and> distinct snapshot
       \<and> completed r
       \<and> exception_of r = raised_in B (trace b) (since b (state_of r))
       \<and> prefix (invoked (since b (state_of r))) (map (\<lambda>l. (l, data)) snapshot)
       \<and> (exception_of r = None \<longrightarrow>
            invoked (since b (state_of r)) = map (\<lambda>l. (l, data)) snapshot)
       \<and> (\<forall>k. registered (state_of r) k
            = registered (effect b (performed B (trace b) (since b (state_of r)))) k)"
  unfolding r_def snapshot_def
  using priv_send_since[OF nested_strong_send[of n iter B] assms(4), of iter B data f ln]
    valid_order_set[OF assms(3)] valid_order_distinct[OF assms(3)]
  by blast

theorem snapshot_dispatch_witness:
  "valid_order sorted_list_of_fset \<and> sending pair_broker
   \<and> sorted_list_of_fset (registered pair_broker test1) = [1, 2]
   \<and> exception_of pair_result = None
   \<and> invoked (since pair_broker (state_of pair_result)) = [(1, Signal test1), (2, Signal test1)]
   \<and> sorted_list_of_fset (registered (state_of pair_result) test1) = [2, 3]
   \<and> invoked (since (state_of pair_result) (state_of
        (priv_send sorted_list_of_fset selfish (send (Suc 1) sorted_list_of_fset selfish)
           (state_of pair_result) (Signal test1, ''a.py'', 8))))
       = [(2, Signal test1), (3, Signal test1)]"
proof -
  have sb: "sending pair_broker" by code_simp
  have sn: "sorted_list_of_fset (registered pair_broker test1) = [1, 2]" by code_simp
  have ex: "exception_of pair_result = None" by code_simp
  have rg: "sorted_list_of_fset (registered (state_of pair_result) test1) = [2, 3]" by code_simp
  have nx: "invoked (since (state_of pair_result) (state_of
        (priv_send sorted_list_of_fset selfish (send (Suc 1) sorted_list_of_fset selfish)
           (state_of pair_result) (Signal test1, ''a.py'', 8))))
       = [(2, Signal test1), (3, Signal test1)]" by code_simp
  note t = snapshot_dispatch[OF valid_order_sorted sb, where n=1 and B=selfish
      and data="Signal test1" and f="''a.py''" and ln=7, folded pair_result_def]
  from t ex have "invoked (since pair_broker (state_of pair_result))
      = map (\<lambda>l. (l, Signal test1)) (sorted_list_of_fset (registered pair_broker (message_type (Signal test1))))"
    by blast
  then have "invoked (since pair_broker (state_of pair_result)) = [(1, Signal test1), (2, Signal test1)]"
    using sn by simp
  with valid_order_sorted sb sn ex rg nx show ?thesis by simp
qed

text \<open>
  C5. Subscribing a listener twice to a kind gives the same broker as subscribing it
  once, with the listener in the set of the kind. From then on, on every broker \<open>d\<close> on
  which the listener is (still) in the set of the kind, in the dispatch of an entry of
  that kind the listener is never called more than once, and it is called exactly once
  when no listener raises in that dispatch.
\<close>

theorem subscribe_twice_invoked_once:
  fixes n iter B b k l d data f ln
  defines "c \<equiv> subscribe (subscribe b k l) k l"
  defines "r \<equiv> priv_send iter B (send (Suc n) iter B) d (data, f, ln)"
  shows "c = subscribe b k l
       \<and> registered c k = finsert l (registered b k)
       \<and> (valid_order iter \<and> sending d \<and> message_type data = k \<and> l |\<in>| registered d k \<longrightarrow>
            count_list (map fst (invoked (since d (state_of r)))) l \<le> 1
          \<and> (exception_of r = None \<longrightarrow>
               count_list (map fst (invoked (since d (state_of r)))) l = 1))"
proof (intro conjI impI)
  show "c = subscribe b k l" unfolding c_def by (rule subscribe_idem)
  show "registered c k = finsert l (registered b k)"
    unfolding c_def by (simp add: subscribe_idem registered_subscribe)
  assume a: "valid_order iter \<and> sending d \<and> message_type data = k \<and> l |\<in>| registered d k"
  then have vo: "valid_order iter" and k: "message_type data = k" and sd: "sending d"
    and rd: "l |\<in>| registered d k" by simp_all
  let ?ls = "iter (registered d (message_type data))"
  note ps = priv_send_since[OF nested_strong_send[of n iter B] sd, of iter B data f ln, folded r_def]
  have "l \<in> set ?ls" using rd k valid_order_set[OF vo] by simp
  then have one: "count_list ?ls l = 1"
    using valid_order_distinct[OF vo] by (simp add: distinct_count_list_1)
  have "prefix (map fst (invoked (since d (state_of r)))) (map fst (map (\<lambda>l. (l, data)) ?ls))"
    using ps(3) by (rule map_mono_prefix)
  then have "prefix (map fst (invoked (since d (state_of r)))) ?ls" by (simp only: map_fst_pairs)
  from prefix_count_list[OF this, of l] one
  show "count_list (map fst (invoked (since d (state_of r)))) l \<le> 1" by simp
  assume "exception_of r = None"
  from ps(4)[OF this] one
  show "count_list (map fst (invoked (since d (state_of r)))) l = 1"
    by (simp only: map_fst_pairs)
qed

theorem subscribe_twice_invoked_once_witness:
  "valid_order sorted_list_of_fset
   \<and> sending (subscribe (subscribe (MessageBroker_init\<lparr>sending := True\<rparr>) test1 1) test1 1)
   \<and> message_type (Signal test1) = test1
   \<and> 1 |\<in>| registered (subscribe (subscribe (MessageBroker_init\<lparr>sending := True\<rparr>) test1 1) test1 1)
            test1
   \<and> exception_of (priv_send sorted_list_of_fset relay (send (Suc 1) sorted_list_of_fset relay)
        (subscribe (subscribe (MessageBroker_init\<lparr>sending := True\<rparr>) test1 1) test1 1)
        (Signal test1, ''a.py'', 7)) = None
   \<and> count_list (map fst (invoked (since
        (subscribe (subscribe (MessageBroker_init\<lparr>sending := True\<rparr>) test1 1) test1 1)
        (state_of (priv_send sorted_list_of_fset relay (send (Suc 1) sorted_list_of_fset relay)
          (subscribe (subscribe (MessageBroker_init\<lparr>sending := True\<rparr>) test1 1) test1 1)
          (Signal test1, ''a.py'', 7)))))) 1 = 1"
proof -
  let ?c = "subscribe (subscribe (MessageBroker_init\<lparr>sending := True\<rparr>) test1 1) test1 1"
  let ?r = "priv_send sorted_list_of_fset relay (send (Suc 1) sorted_list_of_fset relay) ?c
              (Signal test1, ''a.py'', 7)"
  have ex: "exception_of ?r = None" by code_simp
  note t = subscribe_twice_invoked_once[where b="MessageBroker_init\<lparr>sending := True\<rparr>"
      and k=test1 and l=1 and iter=sorted_list_of_fset and data="Signal test1" and B=relay
      and n=1 and f="''a.py''" and ln=7 and d="?c"]
  have "sending ?c" "1 |\<in>| registered ?c test1" by code_simp+
  then have hyp: "valid_order sorted_list_of_fset \<and> sending ?c
      \<and> message_type (Signal test1) = test1 \<and> 1 |\<in>| registered ?c test1"
    by (simp add: valid_order_sorted)
  from t hyp ex have "count_list (map fst (invoked (since ?c (state_of ?r)))) 1 = 1" by blast
  with hyp ex show ?thesis by blast
qed

text \<open>
  C6. After \<^verbatim>\<open>unsubscribe(l)\<close> the listener \<open>l\<close> is in the set of no kind. When \<open>l\<close> was
  in no set to begin with, \<^verbatim>\<open>unsubscribe(l)\<close> changes nothing (the \<^verbatim>\<open>KeyError\<close> of each set
  is passed over, and the call cannot fail). On a broker \<open>c\<close> where \<open>l\<close> is in no set, and
  as long as no listener subscribes \<open>l\<close> again, a \<^verbatim>\<open>send\<close> calls \<open>l\<close> for no message,
  neither for its own entry nor for entries left in the queue or sent by listeners, and
  \<open>l\<close> is still in no set afterwards.
\<close>

theorem unsubscribe_removes_everywhere:
  "(\<forall>k. l |\<notin>| registered (unsubscribe b l) k)
   \<and> ((\<forall>k. l |\<notin>| registered b k) \<longrightarrow> unsubscribe b l = b)
   \<and> (valid_order iter \<and> (\<forall>l' h m k. ASubscribe k l \<notin> set (B l' h m))
        \<and> (\<forall>k. l |\<notin>| registered c k) \<longrightarrow>
          l \<notin> fst ` set (invoked (since c (state_of (send n iter B c data caller))))
        \<and> (\<forall>k. l |\<notin>| registered (state_of (send n iter B c data caller)) k))"
proof (intro conjI impI)
  show "\<forall>k. l |\<notin>| registered (unsubscribe b l) k" by (simp add: registered_unsubscribe)
  show "unsubscribe b l = b" if "\<forall>k. l |\<notin>| registered b k"
    using that by (intro unsubscribe_absent) simp
  assume a: "valid_order iter \<and> (\<forall>l' h m k. ASubscribe k l \<notin> set (B l' h m))
        \<and> (\<forall>k. l |\<notin>| registered c k)"
  then have su: "l \<notin> fst ` set (invoked (since c (state_of (send n iter B c data caller))))
       \<and> (\<forall>k. l |\<notin>| registered (state_of (send n iter B c data caller)) k)"
    by (intro send_unreg) simp_all
  from su show "l \<notin> fst ` set (invoked (since c (state_of (send n iter B c data caller))))" by simp
  from su show "\<forall>k. l |\<notin>| registered (state_of (send n iter B c data caller)) k" by simp
qed

theorem unsubscribe_removes_everywhere_witness:
  "valid_order sorted_list_of_fset
   \<and> 3 |\<in>| registered relay_broker test1
   \<and> 3 |\<notin>| registered (unsubscribe relay_broker 3) test1
   \<and> unsubscribe (unsubscribe relay_broker 3) 3 = unsubscribe relay_broker 3
   \<and> 3 \<notin> fst ` set (invoked (since (unsubscribe relay_broker 3) (state_of
        (send 4 sorted_list_of_fset relay (unsubscribe relay_broker 3) (Signal test1) (''a.py'', 7)))))
   \<and> invoked (since (unsubscribe relay_broker 3) (state_of
        (send 4 sorted_list_of_fset relay (unsubscribe relay_broker 3) (Signal test1) (''a.py'', 7))))
       = [(1, Signal test1), (2, Signal test2)]"
proof -
  let ?c = "unsubscribe relay_broker 3"
  have h0: "3 |\<in>| registered relay_broker test1" by code_simp
  have h1: "\<forall>l' h m k. ASubscribe k 3 \<notin> set (relay l' h m)" by (simp add: relay_def)
  note t1 = unsubscribe_removes_everywhere[where l=3 and b=relay_broker]
  then have h2: "\<forall>k. 3 |\<notin>| registered ?c k" by blast
  note t2 = unsubscribe_removes_everywhere[where l=3 and b="?c" and iter=sorted_list_of_fset
      and B=relay and c="?c" and n=4 and data="Signal test1" and caller="(''a.py'', 7)"]
  from t2 h2 have a: "unsubscribe ?c 3 = ?c" by blast
  from t2 h1 h2 valid_order_sorted
  have b: "3 \<notin> fst ` set (invoked (since ?c (state_of
        (send 4 sorted_list_of_fset relay ?c (Signal test1) (''a.py'', 7)))))" by blast
  have c: "invoked (since ?c (state_of
        (send 4 sorted_list_of_fset relay ?c (Signal test1) (''a.py'', 7))))
       = [(1, Signal test1), (2, Signal test2)]" by code_simp
  from valid_order_sorted h0 h2 a b c show ?thesis by simp
qed

text \<open>
  C7. \<^verbatim>\<open>signal(k)\<close> is \<^verbatim>\<open>send(Signal(k))\<close> called from line 109 of the module: the two have
  the same outcome, and the entry enqueued carries the message \<open>Signal k\<close>, whose kind is
  \<open>k\<close> and which \<^verbatim>\<open>Signal.__eq__\<close> finds equal to \<^verbatim>\<open>Signal(k)\<close>. For two signals,
  \<^verbatim>\<open>Signal.__eq__\<close>, which compares the renderings, holds exactly when the kinds are the
  same.
\<close>

theorem signal_is_send_of_Signal:
  "signal n iter B b k = send n iter B b (Signal k) (''message_broker.py'', 109)
   \<and> (\<exists>t. since b (state_of (signal (Suc m) iter B b k))
            = Enqueue (Signal k, ''message_broker.py'', 109) # t)
   \<and> message_type (Signal k) = k
   \<and> Signal_eq k (Signal_str k)
   \<and> Signal_eq k1 (Signal_str k2) = (k1 = k2)"
proof (intro conjI)
  show "signal n iter B b k = send n iter B b (Signal k) (''message_broker.py'', 109)"
    by (simp add: signal_def signal_via_def signal_origin_def)
  show "\<exists>t. since b (state_of (signal (Suc m) iter B b k))
            = Enqueue (Signal k, ''message_broker.py'', 109) # t"
    using send_trace_Suc[of b m iter B "Signal k" signal_origin]
    by (simp add: signal_def signal_via_def signal_origin_def)
  show "message_type (Signal k) = k" by simp
  show "Signal_eq k (Signal_str k)" by (simp add: Signal_eq_def)
  show "Signal_eq k1 (Signal_str k2) = (k1 = k2)"
    using MessageType_name_inj by (auto simp: Signal_eq_def Signal_str_def MessageType_str_def)
qed

theorem signal_is_send_of_Signal_witness:
  "exception_of (signal 4 sorted_list_of_fset relay relay_broker test1)
     = exception_of (send 4 sorted_list_of_fset relay relay_broker (Signal test1) (''message_broker.py'', 109))
   \<and> invoked (trace (state_of (signal 4 sorted_list_of_fset relay relay_broker test1)))
       = [(1, Signal test1), (3, Signal test1), (2, Signal test2)]
   \<and> Signal_eq test1 (Signal_str test1) \<and> \<not> Signal_eq test1 (Signal_str test2)
   \<and> Signal_str test1 = ''Signal: MessageType.test1''"
proof -
  have a: "invoked (trace (state_of (signal 4 sorted_list_of_fset relay relay_broker test1)))
       = [(1, Signal test1), (3, Signal test1), (2, Signal test2)]" by code_simp
  have b: "Signal_str test1 = ''Signal: MessageType.test1''" by code_simp
  note t = signal_is_send_of_Signal[of 4 sorted_list_of_fset relay relay_broker test1 0 test1 test2]
  from t a b show ?thesis by simp
qed

text \<open>
  C8, as the code has it. On an object of one of the nine frozen dataclasses an
  assignment to \<^verbatim>\<open>message_type\<close>, or to any other attribute, raises
  \<^verbatim>\<open>FrozenInstanceError\<close>; and the equality of two objects of one dataclass compares the
  field values: an object equals every object of its class with the same field values,
  class by class the fields are compared one by one, and the dictionaries of
  \<^verbatim>\<open>GroupsData\<close> and \<^verbatim>\<open>UInputsData\<close> as mappings.
\<close>

theorem frozen_dataclasses_only:
  "(is_dataclass obj \<longrightarrow> setattr obj name v = Inl FrozenInstanceError
                         \<and> dataclass_eq obj obj = Some True)
   \<and> dataclass_eq (GroupData g p) (GroupData g' p') = Some (g = g' \<and> p = p')
   \<and> dataclass_eq (PresetData n m a) (PresetData n' m' a') = Some (n = n' \<and> m = m' \<and> a = a')
   \<and> dataclass_eq (StatusData c s t) (StatusData c' s' t') = Some (c = c' \<and> s = s' \<and> t = t')
   \<and> dataclass_eq (CombinationRecorded x) (CombinationRecorded x') = Some (x = x')
   \<and> dataclass_eq (CombinationUpdate x y) (CombinationUpdate x' y') = Some (x = x' \<and> y = y')
   \<and> dataclass_eq (UserConfirmRequest q r) (UserConfirmRequest q' r') = Some (q = q' \<and> r = r')
   \<and> dataclass_eq (DoStackSwitch i) (DoStackSwitch i') = Some (i = i')
   \<and> dataclass_eq (GroupsData d) (GroupsData d') = Some (map_of d = map_of d')
   \<and> dataclass_eq (UInputsData u) (UInputsData u')
        = Some (\<forall>nm. rel_option (\<lambda>caps caps'. map_of caps = map_of caps')
                        (map_of u nm) (map_of u' nm))"
proof (intro conjI impI)
  assume "is_dataclass obj"
  then show "setattr obj name v = Inl FrozenInstanceError" by (cases obj) simp_all
  have "dict_eq (dict_eq (=)) z z" for z :: "(Name \<times> Capabilities) list"
    by (intro dict_eq_refl) simp
  moreover have "dict_eq (=) z z" for z :: "(Key \<times> DeviceTypes) list"
    by (intro dict_eq_refl) simp
  ultimately show "dataclass_eq obj obj = Some True" using \<open>is_dataclass obj\<close>
    by (cases obj) (simp_all add: dataclass_eq_def)
next
  show "dataclass_eq (UInputsData u) (UInputsData u')
        = Some (\<forall>nm. rel_option (\<lambda>caps caps'. map_of caps = map_of caps')
                        (map_of u nm) (map_of u' nm))"
  proof -
    have "dict_eq (=) = (\<lambda>caps caps'. map_of caps = map_of caps')" for dummy :: Capabilities
      by (intro ext) (rule dict_eq_map_of)
    then have "(dict_eq (=) :: Capabilities \<Rightarrow> _) = (\<lambda>caps caps'. map_of caps = map_of caps')"
      by simp
    then show ?thesis by (simp add: dataclass_eq_def dict_eq_rel)
  qed
qed (simp_all add: dataclass_eq_def dict_eq_map_of)

theorem frozen_dataclasses_only_witness:
  "is_dataclass (GroupData ''keyboard'' [''preset 1''])
   \<and> setattr (GroupData ''keyboard'' [''preset 1'']) ''message_type'' test1 = Inl FrozenInstanceError
   \<and> setattr (GroupData ''keyboard'' [''preset 1'']) ''group_key'' test1 = Inl FrozenInstanceError
   \<and> dataclass_eq (GroupData ''keyboard'' [''preset 1'']) (GroupData ''keyboard'' [''preset 1''])
       = Some True
   \<and> dataclass_eq (GroupData ''keyboard'' [''preset 1'']) (GroupData ''mouse'' [''preset 1''])
       = Some False"
proof -
  note t1 = frozen_dataclasses_only[where obj="GroupData ''keyboard'' [''preset 1'']"
      and name="''message_type''" and v=test1 and g="''keyboard''" and p="[''preset 1'']"
      and g'="''mouse''" and p'="[''preset 1'']"]
  note t2 = frozen_dataclasses_only[where obj="GroupData ''keyboard'' [''preset 1'']"
      and name="''group_key''" and v=test1]
  have h: "is_dataclass (GroupData ''keyboard'' [''preset 1''])" by simp
  from t1 t2 h show ?thesis by simp
qed

text \<open>
  The claim as stated fails for \<^verbatim>\<open>Signal\<close>, which is a plain class and not a frozen
  dataclass: the assignment \<^verbatim>\<open>s.message_type = MessageType.test2\<close> on \<^verbatim>\<open>s = Signal(MessageType.test1)\<close>
  succeeds and changes the kind of the message.
\<close>

theorem Signal_message_type_assignable:
  "setattr (Signal test1) ''message_type'' test2 = Inr (Signal test2)
   \<and> message_type (Signal test1) = test1 \<and> message_type (Signal test2) = test2
   \<and> \<not> is_dataclass (Signal test1)"
  by simp




end
